theory Spec2Isabelle
  imports Main "HOL-Library.Word" "HOL-Library.Sublist"
begin

section \<open>Table scan translator (codegen/operator/table\_scan\_translator.cpp)\<close>

text \<open>
  The translator emits the code of a sequential scan. The theory embeds what the
  emitted code computes for one tile group range \<open>[tid_start, tid_end)\<close>: row ids,
  sizes and positions are the 32-bit values the emitted instructions work on, the
  selection vector is a buffer together with its element count, and the calls into
  the runtime are recorded in the order in which they are made.
\<close>

type_synonym u32 = "32 word"

subsection \<open>Expressions and the scan plan\<close>

text \<open>
  The SQL types the translator tells apart: \<open>type::Boolean::Instance()\<close>, the type of
  a default-constructed \<open>codegen::Value\<close>, and every other type by an opaque number.
\<close>

datatype SqlType = Boolean | Invalid | OtherType nat

record AttributeInfo =
  attribute_id :: nat
  attr_type :: SqlType
  attr_nullable :: bool

text \<open>
  The two kinds of children the lane loop handles: a constant (its raw value and
  whether it is the SQL NULL) and a column reference.
\<close>

datatype Operand =
    ConstantValueExpression int bool
  | TupleValueExpression AttributeInfo

datatype ExpressionType =
    COMPARE_EQUAL
  | COMPARE_NOTEQUAL
  | COMPARE_LESSTHAN
  | COMPARE_LESSTHANOREQUALTO
  | COMPARE_GREATERTHAN
  | COMPARE_GREATERTHANOREQUALTO
  | OTHER_EXPRESSION

record ComparisonExpression =
  GetExpressionType :: ExpressionType
  GetChild0 :: Operand
  GetChild1 :: Operand

text \<open>
  Any other expression (the whole predicate, the non-SIMD residual) is taken by what
  the translator asks of it: \<open>IsSIMDable()\<close>, the SQL type of the value its
  translator derives, and that value on the row with a given id (\<open>None\<close> is NULL).
\<close>

record AbstractExpression =
  IsSIMDable :: bool
  GetValueType :: SqlType
  DeriveValue :: "u32 \<Rightarrow> bool option"

record SeqScanPlan =
  GetTableName :: string
  GetPredicate :: "AbstractExpression option"
  GetSIMDPredicates :: "ComparisonExpression list"
  GetNonSIMDPredicate :: "AbstractExpression option"

subsection \<open>The name of the scan\<close>

text \<open>\<open>std::to_string\<close> on an unsigned value: its decimal digits.\<close>

definition digit_char :: "nat \<Rightarrow> char" where
  "digit_char d = ''0123456789'' ! d"

function to_string :: "nat \<Rightarrow> string" where
  "to_string n = (if n < 10 then [digit_char n] else to_string (n div 10) @ [digit_char (n mod 10)])"
  by pat_completeness auto
termination
  by (relation "measure id") auto

declare to_string.simps [simp del]

text \<open>
  \<open>TableScanTranslator::GetName\<close>. \<open>Vector::kDefaultVectorSize\<close> is declared outside
  this file and is a parameter.
\<close>

definition GetName :: "u32 \<Rightarrow> SeqScanPlan \<Rightarrow> string" where
  "GetName kDefaultVectorSize plan =
     (let name = ''Scan('' @ [CHR 0x27] @ GetTableName plan @ [CHR 0x27];
          predicate = GetPredicate plan;
          name = (if predicate \<noteq> None \<and> IsSIMDable (the predicate)
                  then name @ '', '' @ to_string (unat kDefaultVectorSize)
                  else name)
      in name @ '')'')"

text \<open>Whether a string occurs in another one as a contiguous piece.\<close>

fun is_prefix :: "string \<Rightarrow> string \<Rightarrow> bool" where
  "is_prefix [] ys = True"
| "is_prefix (x # xs) [] = False"
| "is_prefix (x # xs) (y # ys) = (x = y \<and> is_prefix xs ys)"

fun contains :: "string \<Rightarrow> string \<Rightarrow> bool" where
  "contains [] xs = (xs = [])"
| "contains (y # ys) xs = (is_prefix xs (y # ys) \<or> contains ys xs)"

subsection \<open>The selection vector and the row batch\<close>

text \<open>The lane width of the predicate filter: \<open>uint32_t N = 32\<close>.\<close>

definition N :: nat where
  "N = 32"

text \<open>
  Modelled from the spec: \<open>codegen::Vector\<close> (codegen/vector.h is not among the
  sources). "Selection vector: backing buffer, capacity, current count". The buffer is
  the memory behind \<open>GetVectorPtr()\<close>, read and written by position; the table hands
  out ranges of at most the vector's capacity rows, and the capacity is not modelled.
\<close>

record Vector =
  GetVectorPtr :: "u32 \<Rightarrow> u32"
  GetNumElements :: u32

definition SetNumElements :: "Vector \<Rightarrow> u32 \<Rightarrow> Vector" where
  "SetNumElements v n = v\<lparr>GetNumElements := n\<rparr>"

definition SetValue :: "Vector \<Rightarrow> u32 \<Rightarrow> u32 \<Rightarrow> Vector" where
  "SetValue v pos x = v\<lparr>GetVectorPtr := (GetVectorPtr v)(pos := x)\<rparr>"

text \<open>The first \<open>n\<close> entries of the buffer, and the entries the count covers.\<close>

definition buf_take :: "Vector \<Rightarrow> nat \<Rightarrow> u32 list" where
  "buf_take v n = map (\<lambda>i. GetVectorPtr v (of_nat i)) [0..<n]"

definition sel_list :: "Vector \<Rightarrow> u32 list" where
  "sel_list v = buf_take v (unat (GetNumElements v))"

text \<open>The row ids of a range of \<open>n\<close> rows that starts at \<open>tid_start\<close>, in order.\<close>

definition row_range :: "u32 \<Rightarrow> nat \<Rightarrow> u32 list" where
  "row_range tid_start n = map (\<lambda>i. tid_start + of_nat i) [0..<n]"

text \<open>
  Modelled from the spec: \<open>codegen::RowBatch\<close> (codegen/row\_batch.h is not among the
  sources). "Row Batch: a chunk identifier, a row-identifier range, a selection vector,
  a filtered flag"; "if filtered=false, every row id in range is implicitly valid; if
  filtered=true, only row ids present in the selection vector are iterated". The
  batch refers to the scan's one selection vector; here it carries it.
\<close>

record RowBatch =
  batch_tid_start :: u32
  batch_tid_end :: u32
  batch_selection_vector :: Vector
  batch_filtered :: bool

definition GetNumValidRows :: "RowBatch \<Rightarrow> u32" where
  "GetNumValidRows b =
     (if batch_filtered b then GetNumElements (batch_selection_vector b)
      else batch_tid_end b - batch_tid_start b)"

text \<open>The row id of the row at a position of the batch (\<open>GetRowAt(pos).GetTID()\<close>).\<close>

definition GetTID :: "RowBatch \<Rightarrow> u32 \<Rightarrow> u32" where
  "GetTID b pos =
     (if batch_filtered b then GetVectorPtr (batch_selection_vector b) pos
      else batch_tid_start b + pos)"

definition SetFiltered :: "RowBatch \<Rightarrow> bool \<Rightarrow> RowBatch" where
  "SetFiltered b f = b\<lparr>batch_filtered := f\<rparr>"

definition UpdateWritePosition :: "RowBatch \<Rightarrow> u32 \<Rightarrow> RowBatch" where
  "UpdateWritePosition b sz =
     b\<lparr>batch_selection_vector := SetNumElements (batch_selection_vector b) sz,
       batch_filtered := True\<rparr>"

text \<open>
  Modelled from the spec: \<open>RowBatch::Row::SetValidity\<close> on a row with an
  \<open>OutputTracker\<close> at \<open>write_pos\<close>. "If set, append its row id to the selection vector
  at the next write position (write position is a monotonically advancing cursor)".
  The result is the batch and the tracker's \<open>GetFinalOutputPos()\<close>.
\<close>

definition SetValidity :: "RowBatch \<Rightarrow> u32 \<Rightarrow> u32 \<Rightarrow> bool \<Rightarrow> RowBatch \<times> u32" where
  "SetValidity b write_pos tid valid =
     (if valid
      then (b\<lparr>batch_selection_vector := SetValue (batch_selection_vector b) write_pos tid\<rparr>,
            write_pos + 1)
      else (b, write_pos))"

subsection \<open>What the emitted code reads while it runs\<close>

text \<open>
  The surroundings of one tile group: the raw value a column stores for a row (what
  \<open>TileGroupAccess\<close> loads), the value each SQL type uses for NULL
  (\<open>SqlType::GetNullValue\<close>), the content of a lane that was never loaded, and the rows
  the running transaction may see.
\<close>

record Runtime =
  column_value :: "nat \<Rightarrow> u32 \<Rightarrow> int"
  null_value :: "SqlType \<Rightarrow> int"
  undef_value :: int
  visible :: "u32 \<Rightarrow> bool"

subsection \<open>Values of N lanes\<close>

text \<open>
  A \<open>codegen::Value\<close> over a vector of N lanes as the lane loop builds it: the lanes'
  raw values and the null bits, \<open>None\<close> where the loop passes \<open>nullptr\<close>. Casts to the
  comparison type keep the value; they are not modelled.
\<close>

record Lanes =
  lane_val :: "int list"
  lane_null :: "bool list option"

record CompVal =
  comp_type :: SqlType
  comp_val :: "bool list"
  comp_null :: "bool list option"

text \<open>
  \<open>CreateMaskedLoad(ptr, 0, mask)\<close> from the address of the column in the first row
  of the vector: the N rows that follow each other in storage, a lane whose mask bit
  is off being left undefined.
\<close>

definition CreateMaskedLoad :: "Runtime \<Rightarrow> nat \<Rightarrow> u32 \<Rightarrow> bool list \<Rightarrow> int list" where
  "CreateMaskedLoad rt col first_tid lane_mask =
     map (\<lambda>i. if lane_mask ! i then column_value rt col (first_tid + of_nat i) else undef_value rt)
       [0..<N]"

text \<open>
  The operand of a SIMD predicate over the lanes (lines 502 to 558): a constant is
  splat by its value, with no null bits; a column is loaded, and has null bits (the
  lanes equal to the type's NULL value) when its type is nullable.
\<close>

definition materialize :: "Runtime \<Rightarrow> u32 \<Rightarrow> bool list \<Rightarrow> Operand \<Rightarrow> Lanes" where
  "materialize rt first_tid lane_mask e =
     (case e of
        ConstantValueExpression ins_val const_is_null \<Rightarrow>
          \<lparr>lane_val = replicate N ins_val, lane_null = None\<rparr>
      | TupleValueExpression ai \<Rightarrow>
          (let uncasted = CreateMaskedLoad rt (attribute_id ai) first_tid lane_mask
           in if attr_nullable ai
              then \<lparr>lane_val = uncasted,
                    lane_null = Some (map (\<lambda>x. x = null_value rt (attr_type ai)) uncasted)\<rparr>
              else \<lparr>lane_val = uncasted, lane_null = None\<rparr>))"

text \<open>
  Modelled from the spec: \<open>Value::CompareEq\<close> and its five siblings
  (codegen/value.cpp is not among the sources). "Track null-lane masks per operand.
  Evaluate the comparison lane-wise, producing a per-lane boolean-with-null result":
  a lane of the result is null when a null bit of an operand is set there, and an
  operand without null bits has no null lane.
\<close>

definition null_or :: "bool list option \<Rightarrow> bool list option \<Rightarrow> bool list option" where
  "null_or a b =
     (case a of
        None \<Rightarrow> b
      | Some x \<Rightarrow> (case b of None \<Rightarrow> Some x | Some y \<Rightarrow> Some (map2 (\<or>) x y)))"

definition Compare :: "(int \<Rightarrow> int \<Rightarrow> bool) \<Rightarrow> Lanes \<Rightarrow> Lanes \<Rightarrow> CompVal" where
  "Compare cmp l r =
     \<lparr>comp_type = Boolean,
      comp_val = map2 cmp (lane_val l) (lane_val r),
      comp_null = null_or (lane_null l) (lane_null r)\<rparr>"

text \<open>
  The \<open>switch\<close> on the expression type (lines 565 to 587); in the default case
  \<open>comp_val\<close> stays the default-constructed value, modelled with the type
  \<open>Invalid\<close> and no lanes.
\<close>

definition default_CompVal :: CompVal where
  "default_CompVal = \<lparr>comp_type = Invalid, comp_val = [], comp_null = None\<rparr>"

definition switch_compare :: "ExpressionType \<Rightarrow> Lanes \<Rightarrow> Lanes \<Rightarrow> CompVal" where
  "switch_compare t val_lhs val_rhs =
     (case t of
        COMPARE_EQUAL \<Rightarrow> Compare (\<lambda>a b. a = b) val_lhs val_rhs
      | COMPARE_NOTEQUAL \<Rightarrow> Compare (\<lambda>a b. a \<noteq> b) val_lhs val_rhs
      | COMPARE_LESSTHAN \<Rightarrow> Compare (\<lambda>a b. a < b) val_lhs val_rhs
      | COMPARE_LESSTHANOREQUALTO \<Rightarrow> Compare (\<lambda>a b. a \<le> b) val_lhs val_rhs
      | COMPARE_GREATERTHAN \<Rightarrow> Compare (\<lambda>a b. a > b) val_lhs val_rhs
      | COMPARE_GREATERTHANOREQUALTO \<Rightarrow> Compare (\<lambda>a b. a \<ge> b) val_lhs val_rhs
      | OTHER_EXPRESSION \<Rightarrow> default_CompVal)"

text \<open>
  Modelled from the spec: \<open>type::Boolean::Reify\<close> (codegen/type/boolean\_type.cpp is
  not among the sources). "Reify: convert a three-valued (true/false/null) logical
  result into a concrete boolean filtering decision, with null treated as false."
\<close>

definition Reify :: "bool option \<Rightarrow> bool" where
  "Reify v = (case v of None \<Rightarrow> False | Some b \<Rightarrow> b)"

definition Reify_lanes :: "CompVal \<Rightarrow> bool list" where
  "Reify_lanes v =
     (case comp_null v of
        None \<Rightarrow> comp_val v
      | Some is_null \<Rightarrow> map2 (\<lambda>x n. x \<and> \<not> n) (comp_val v) is_null)"

text \<open>
  The mask of one vector of N rows (lines 473 to 593): all ones, then for every SIMD
  predicate in turn the reified comparison of its operands is and-ed into it.
\<close>

definition simd_step :: "Runtime \<Rightarrow> u32 \<Rightarrow> ComparisonExpression \<Rightarrow> bool list \<Rightarrow> bool list" where
  "simd_step rt first_tid simd_predicate lane_mask =
     (let val_lhs = materialize rt first_tid lane_mask (GetChild0 simd_predicate);
          val_rhs = materialize rt first_tid lane_mask (GetChild1 simd_predicate);
          comp = switch_compare (GetExpressionType simd_predicate) val_lhs val_rhs;
          bool_val = Reify_lanes comp
      in map2 (\<and>) lane_mask bool_val)"

definition simd_mask :: "Runtime \<Rightarrow> ComparisonExpression list \<Rightarrow> u32 \<Rightarrow> bool list" where
  "simd_mask rt simd_predicates first_tid =
     fold (simd_step rt first_tid) simd_predicates (replicate N True)"

text \<open>
  The callback handed to \<open>VectorizedIterate\<close> (lines 468 to 604) for the vector that
  starts at batch position \<open>start\<close>: the mask, then lane by lane the row's validity is
  set from its mask bit, each row's tracker starting where the last one ended.
\<close>

definition ProcessRows ::
  "Runtime \<Rightarrow> ComparisonExpression list \<Rightarrow> u32 \<Rightarrow> RowBatch \<times> u32 \<Rightarrow> RowBatch \<times> u32" where
  "ProcessRows rt simd_predicates start s =
     (let lane_mask = simd_mask rt simd_predicates (GetTID (fst s) start)
      in fold (\<lambda>i (b, final_pos).
                 SetValidity b final_pos (GetTID b (start + of_nat i)) (lane_mask ! i))
           [0..<N] s)"

text \<open>
  Modelled from the spec: \<open>RowBatch::VectorizedIterate\<close> with vectors of N rows. It
  walks the batch a vector at a time from position 0 with the write position at 0,
  hands both to the callback, and leaves the final write position as the selection
  vector's count.
\<close>

fun vectorized_loop ::
  "(u32 \<Rightarrow> RowBatch \<times> u32 \<Rightarrow> RowBatch \<times> u32) \<Rightarrow> nat \<Rightarrow> u32 \<Rightarrow> RowBatch \<times> u32 \<Rightarrow> RowBatch \<times> u32" where
  "vectorized_loop cb 0 start s = s"
| "vectorized_loop cb (Suc k) start s = vectorized_loop cb k (start + of_nat N) (cb start s)"

definition VectorizedIterate ::
  "RowBatch \<Rightarrow> (u32 \<Rightarrow> RowBatch \<times> u32 \<Rightarrow> RowBatch \<times> u32) \<Rightarrow> RowBatch" where
  "VectorizedIterate b cb =
     (let num_rows = unat (GetNumValidRows b);
          (b', write_pos) = vectorized_loop cb ((num_rows + N - 1) div N) 0 (b, 0)
      in UpdateWritePosition b' write_pos)"

subsection \<open>The scalar evaluation of a comparison\<close>

text \<open>
  Modelled from the spec: \<open>Row::DeriveValue\<close> on a SIMD predicate, that is the
  expression translators behind it (not among the sources). "Evaluate the full
  predicate via the general scalar expression evaluator": a column is NULL in a row
  when its type is nullable and the stored value is the type's NULL value, a constant
  when it is the SQL NULL, and a comparison with a NULL operand is NULL.
\<close>

fun comparison_of :: "ExpressionType \<Rightarrow> (int \<Rightarrow> int \<Rightarrow> bool) option" where
  "comparison_of COMPARE_EQUAL = Some (\<lambda>a b. a = b)"
| "comparison_of COMPARE_NOTEQUAL = Some (\<lambda>a b. a \<noteq> b)"
| "comparison_of COMPARE_LESSTHAN = Some (\<lambda>a b. a < b)"
| "comparison_of COMPARE_LESSTHANOREQUALTO = Some (\<lambda>a b. a \<le> b)"
| "comparison_of COMPARE_GREATERTHAN = Some (\<lambda>a b. a > b)"
| "comparison_of COMPARE_GREATERTHANOREQUALTO = Some (\<lambda>a b. a \<ge> b)"
| "comparison_of OTHER_EXPRESSION = None"

definition operand_value :: "Runtime \<Rightarrow> Operand \<Rightarrow> u32 \<Rightarrow> int" where
  "operand_value rt e tid =
     (case e of
        ConstantValueExpression c const_is_null \<Rightarrow> c
      | TupleValueExpression ai \<Rightarrow> column_value rt (attribute_id ai) tid)"

definition operand_is_null :: "Runtime \<Rightarrow> Operand \<Rightarrow> u32 \<Rightarrow> bool" where
  "operand_is_null rt e tid =
     (case e of
        ConstantValueExpression c const_is_null \<Rightarrow> const_is_null
      | TupleValueExpression ai \<Rightarrow>
          attr_nullable ai \<and> column_value rt (attribute_id ai) tid = null_value rt (attr_type ai))"

definition DeriveValue_cmp :: "Runtime \<Rightarrow> ComparisonExpression \<Rightarrow> u32 \<Rightarrow> bool option" where
  "DeriveValue_cmp rt p tid =
     (case comparison_of (GetExpressionType p) of
        None \<Rightarrow> None
      | Some cmp \<Rightarrow>
          if operand_is_null rt (GetChild0 p) tid \<or> operand_is_null rt (GetChild1 p) tid
          then None
          else Some (cmp (operand_value rt (GetChild0 p) tid) (operand_value rt (GetChild1 p) tid)))"

text \<open>
  The body of the post-batch loop (lines 631 to 640): \<open>ConstBool(true)\<close>, and-ed with
  the reified value of every SIMD predicate on the row.
\<close>

definition scalar_mask :: "Runtime \<Rightarrow> ComparisonExpression list \<Rightarrow> u32 \<Rightarrow> bool" where
  "scalar_mask rt simd_predicates tid =
     fold (\<lambda>simd_predicate lane_mask. lane_mask \<and> Reify (DeriveValue_cmp rt simd_predicate tid))
       simd_predicates True"

text \<open>
  The post-batch loop (lines 616 to 649): \<open>idx_cur\<close> and \<open>write_pos\<close> are the two PHI
  nodes, the loop runs while \<open>idx_cur\<close> is below \<open>orig_size\<close> as unsigned values.
\<close>

function post_batch_loop ::
  "Runtime \<Rightarrow> ComparisonExpression list \<Rightarrow> u32 \<Rightarrow> u32 \<Rightarrow> RowBatch \<times> u32 \<Rightarrow> RowBatch \<times> u32" where
  "post_batch_loop rt simd_predicates orig_size idx_cur s =
     (if idx_cur < orig_size
      then post_batch_loop rt simd_predicates orig_size (idx_cur + 1)
             (SetValidity (fst s) (snd s) (GetTID (fst s) idx_cur)
                (scalar_mask rt simd_predicates (GetTID (fst s) idx_cur)))
      else s)"
  by pat_completeness auto
termination
proof (relation "measure (\<lambda>(rt, ps, orig_size, idx_cur, s). unat orig_size - unat idx_cur)")
  show "wf (measure (\<lambda>(rt, ps, orig_size :: u32, idx_cur :: u32, s). unat orig_size - unat idx_cur))"
    by simp
next
  fix rt :: Runtime and simd_predicates :: "ComparisonExpression list"
    and orig_size idx_cur :: u32 and s :: "RowBatch \<times> u32"
  assume lt: "idx_cur < orig_size"
  then have "unat idx_cur < unat orig_size"
    by (simp add: word_less_nat_alt)
  moreover have "unat orig_size < 2 ^ 32"
    using unsigned_less [of orig_size, where ?'a = nat] by simp
  ultimately have "unat idx_cur + unat (1 :: u32) < 2 ^ LENGTH(32)"
    by simp
  then have "unat (idx_cur + 1) = unat idx_cur + unat (1 :: u32)"
    by (simp only: unat_add_lem)
  with \<open>unat idx_cur < unat orig_size\<close>
  show "((rt, simd_predicates, orig_size, idx_cur + 1,
        SetValidity (fst s) (snd s) (GetTID (fst s) idx_cur)
          (scalar_mask rt simd_predicates (GetTID (fst s) idx_cur))),
       (rt, simd_predicates, orig_size, idx_cur, s))
      \<in> measure (\<lambda>(rt, ps, orig_size, idx_cur, s). unat orig_size - unat idx_cur)"
    by simp
qed

declare post_batch_loop.simps [simp del]

text \<open>
  The first part of \<open>FilterRowsByPredicate\<close> (lines 444 to 650): the aligned batch,
  the lane loop over it, and the post-batch loop over the rest of the range.
\<close>

definition simd_pass ::
  "Runtime \<Rightarrow> ComparisonExpression list \<Rightarrow> u32 \<Rightarrow> u32 \<Rightarrow> Vector \<Rightarrow> Vector" where
  "simd_pass rt simd_predicates tid_start tid_end selection_vector =
     (let align_start = tid_start;
          orig_size = tid_end - tid_start;
          align_size = of_nat N * (orig_size div of_nat N);
          align_end = tid_start + align_size;
          batch = \<lparr>batch_tid_start = align_start, batch_tid_end = align_end,
                   batch_selection_vector = selection_vector, batch_filtered = False\<rparr>;
          batch = VectorizedIterate batch (ProcessRows rt simd_predicates);
          batch = SetFiltered batch False;
          idx_cur = align_size;
          write_pos = GetNumElements (batch_selection_vector batch);
          (batch, write_pos) = post_batch_loop rt simd_predicates orig_size idx_cur (batch, write_pos);
          batch = UpdateWritePosition batch write_pos
      in batch_selection_vector batch)"

subsection \<open>The pass of the non-SIMD predicate\<close>

text \<open>
  Modelled from the spec: \<open>RowBatch::Iterate\<close>, the scalar loop over the rows of a
  batch: positions 0 up to the number of valid rows, the write position starting at
  0 and ending as the selection vector's count.
\<close>

function iterate_loop ::
  "(RowBatch \<Rightarrow> u32 \<Rightarrow> u32 \<Rightarrow> RowBatch \<times> u32) \<Rightarrow> u32 \<Rightarrow> u32 \<Rightarrow> RowBatch \<times> u32 \<Rightarrow> RowBatch \<times> u32" where
  "iterate_loop cb num_rows pos s =
     (if pos < num_rows
      then iterate_loop cb num_rows (pos + 1) (cb (fst s) pos (snd s))
      else s)"
  by pat_completeness auto
termination
proof (relation "measure (\<lambda>(cb, num_rows, pos, s). unat num_rows - unat pos)")
  show "wf (measure (\<lambda>(cb :: RowBatch \<Rightarrow> u32 \<Rightarrow> u32 \<Rightarrow> RowBatch \<times> u32, num_rows :: u32, pos :: u32,
      s :: RowBatch \<times> u32). unat num_rows - unat pos))"
    by simp
next
  fix cb :: "RowBatch \<Rightarrow> u32 \<Rightarrow> u32 \<Rightarrow> RowBatch \<times> u32"
    and num_rows pos :: u32 and s :: "RowBatch \<times> u32"
  assume lt: "pos < num_rows"
  then have "unat pos < unat num_rows"
    by (simp add: word_less_nat_alt)
  moreover have "unat num_rows < 2 ^ 32"
    using unsigned_less [of num_rows, where ?'a = nat] by simp
  ultimately have "unat pos + unat (1 :: u32) < 2 ^ LENGTH(32)"
    by simp
  then have "unat (pos + 1) = unat pos + unat (1 :: u32)"
    by (simp only: unat_add_lem)
  with \<open>unat pos < unat num_rows\<close>
  show "((cb, num_rows, pos + 1, cb (fst s) pos (snd s)), (cb, num_rows, pos, s))
      \<in> measure (\<lambda>(cb, num_rows, pos, s). unat num_rows - unat pos)"
    by simp
qed

declare iterate_loop.simps [simp del]

definition Iterate :: "RowBatch \<Rightarrow> (RowBatch \<Rightarrow> u32 \<Rightarrow> u32 \<Rightarrow> RowBatch \<times> u32) \<Rightarrow> RowBatch" where
  "Iterate b cb =
     (let (b', write_pos) = iterate_loop cb (GetNumValidRows b) 0 (b, 0)
      in UpdateWritePosition b' write_pos)"

text \<open>
  The second part of \<open>FilterRowsByPredicate\<close> (lines 653 to 686): a filtered batch
  over the selection vector, and for each of its rows the reified value of the
  non-SIMD predicate as the row's validity.
\<close>

definition non_simd_pass :: "AbstractExpression \<Rightarrow> u32 \<Rightarrow> u32 \<Rightarrow> Vector \<Rightarrow> Vector" where
  "non_simd_pass non_simd_predicate tid_start tid_end selection_vector =
     (let batch = \<lparr>batch_tid_start = tid_start, batch_tid_end = tid_end,
                   batch_selection_vector = selection_vector, batch_filtered = True\<rparr>;
          batch = Iterate batch
                    (\<lambda>b pos write_pos.
                       let valid_row = DeriveValue non_simd_predicate (GetTID b pos);
                           bool_val = Reify valid_row
                       in SetValidity b write_pos (GetTID b pos) bool_val)
      in batch_selection_vector batch)"

subsection \<open>The predicate filter\<close>

text \<open>
  The calls into the runtime that the emitted code makes, and the state of the scan
  between them: the selection vector and the calls made so far.
\<close>

datatype RuntimeCall =
    Call_GetClockStart
  | Call_GetClockPause
  | Call_GetTransaction
  | Call_PerformVectorizedRead u32 u32 u32
  | Call_Consume RowBatch

record ScanState =
  selection_vector :: Vector
  calls :: "RuntimeCall list"

datatype error = NullPointerDereference | AssertionFailure

text \<open>
  Modelled from the spec: \<open>PELOTON_ASSERT\<close> (common/macros.h is not among the
  sources). "An internal consistency check enforces that every reified predicate
  result has boolean type; violation is a fatal programming-contract error (an
  assertion failure)". The three assertions (lines 589, 635 and 678) are evaluated
  while the code is emitted, on the types of the values, whatever rows the emitted
  code would later see: first the lane loop's for every SIMD predicate, then the
  post-batch loop's, then the one on the non-SIMD predicate.
\<close>

definition comp_val_type :: "ExpressionType \<Rightarrow> SqlType" where
  "comp_val_type t =
     comp_type (switch_compare t \<lparr>lane_val = [], lane_null = None\<rparr> \<lparr>lane_val = [], lane_null = None\<rparr>)"

definition DeriveValue_cmp_type :: "ComparisonExpression \<Rightarrow> SqlType" where
  "DeriveValue_cmp_type p =
     (case comparison_of (GetExpressionType p) of None \<Rightarrow> Invalid | Some cmp \<Rightarrow> Boolean)"

definition asserts_hold :: "ComparisonExpression list \<Rightarrow> AbstractExpression option \<Rightarrow> bool" where
  "asserts_hold simd_predicates non_simd_predicate =
     (list_all (\<lambda>p. comp_val_type (GetExpressionType p) = Boolean) simd_predicates \<and>
      list_all (\<lambda>p. DeriveValue_cmp_type p = Boolean) simd_predicates \<and>
      (case non_simd_predicate of None \<Rightarrow> True | Some p \<Rightarrow> GetValueType p = Boolean))"

text \<open>
  The non-SIMD predicate that \<open>FilterRowsByPredicate\<close> works with (lines 253 to 260):
  the plan's, or the whole predicate when the plan has neither SIMD predicates nor a
  non-SIMD predicate.
\<close>

definition residual_predicate :: "SeqScanPlan \<Rightarrow> AbstractExpression option" where
  "residual_predicate plan =
     (let simd_predicates = GetSIMDPredicates plan;
          non_simd_predicate = GetNonSIMDPredicate plan
      in if simd_predicates = [] \<and> non_simd_predicate = None
         then GetPredicate plan
         else non_simd_predicate)"

text \<open>
  \<open>ScanConsumer::FilterRowsByPredicate\<close>, the branch without \<open>ORIGINAL_ORDER\<close>.
  Line 456 calls \<open>GetUsedAttributes\<close> on \<open>GetPredicate()\<close> without a check, before
  any loop is emitted: with no predicate the function dereferences a null pointer,
  and the call of \<open>GetClockStart\<close> emitted before it (line 256) is lost with the code
  under construction. \<open>ProcessTuples\<close> calls it only when the predicate is not null
  (line 160). The assertions fail, if they do, while the loops are emitted.
\<close>

definition FilterRowsByPredicate ::
  "Runtime \<Rightarrow> SeqScanPlan \<Rightarrow> u32 \<Rightarrow> u32 \<Rightarrow> ScanState \<Rightarrow> error + ScanState" where
  "FilterRowsByPredicate rt plan tid_start tid_end st =
     (let simd_predicates = GetSIMDPredicates plan;
          non_simd_predicate = residual_predicate plan
      in if GetPredicate plan = None
         then Inl NullPointerDereference
         else if \<not> asserts_hold simd_predicates non_simd_predicate
         then Inl AssertionFailure
         else
           (let st = st\<lparr>calls := calls st @ [Call_GetClockStart]\<rparr>;
                v = simd_pass rt simd_predicates tid_start tid_end (selection_vector st);
                v = (case non_simd_predicate of
                       None \<Rightarrow> v
                     | Some p \<Rightarrow> non_simd_pass p tid_start tid_end v)
            in Inr (st\<lparr>selection_vector := v, calls := calls st @ [Call_GetClockPause]\<rparr>)))"

subsection \<open>The visibility filter and the scan of one range\<close>

text \<open>
  Modelled from the spec: \<open>TransactionRuntime::PerformVectorizedRead\<close> (not among
  the sources). It is called "with the active transaction handle, the chunk handle,
  the row range, and the current selection vector (or the full range if unfiltered),
  receiving back a new count of surviving entries written in place into the same
  buffer, in ascending row-id order". The count \<open>-1\<close> stands for the unfiltered range,
  as in the \<open>ORIGINAL_ORDER\<close> branch, which passes \<open>Const32(-1)\<close> outright.
\<close>

fun write_entries :: "(u32 \<Rightarrow> u32) \<Rightarrow> u32 \<Rightarrow> u32 list \<Rightarrow> u32 \<Rightarrow> u32" where
  "write_entries buf pos [] = buf"
| "write_entries buf pos (x # xs) = write_entries (buf(pos := x)) (pos + 1) xs"

definition candidates :: "u32 \<Rightarrow> u32 \<Rightarrow> (u32 \<Rightarrow> u32) \<Rightarrow> u32 \<Rightarrow> u32 list" where
  "candidates tid_start tid_end raw_sel_vec num_elements =
     (if num_elements = - 1
      then row_range tid_start (unat (tid_end - tid_start))
      else map (\<lambda>i. raw_sel_vec (of_nat i)) [0..<unat num_elements])"

definition PerformVectorizedRead ::
  "Runtime \<Rightarrow> u32 \<Rightarrow> u32 \<Rightarrow> (u32 \<Rightarrow> u32) \<Rightarrow> u32 \<Rightarrow> (u32 \<Rightarrow> u32) \<times> u32" where
  "PerformVectorizedRead rt tid_start tid_end raw_sel_vec num_elements =
     (let survivors = filter (visible rt) (candidates tid_start tid_end raw_sel_vec num_elements)
      in (write_entries raw_sel_vec 0 survivors, of_nat (length survivors)))"

text \<open>
  \<open>ScanConsumer::FilterRowsByVisibility\<close>, the branch without \<open>ORIGINAL_ORDER\<close>:
  the transaction is fetched from the executor context, then the vectorized read is
  called with the selection vector's buffer and its element count.
\<close>

definition FilterRowsByVisibility :: "Runtime \<Rightarrow> u32 \<Rightarrow> u32 \<Rightarrow> ScanState \<Rightarrow> ScanState" where
  "FilterRowsByVisibility rt tid_start tid_end st =
     (let raw_sel_vec = GetVectorPtr (selection_vector st);
          num_elements = GetNumElements (selection_vector st);
          (buf, out_idx) = PerformVectorizedRead rt tid_start tid_end raw_sel_vec num_elements
      in st\<lparr>selection_vector :=
               SetNumElements (selection_vector st\<lparr>GetVectorPtr := buf\<rparr>) out_idx,
             calls := calls st @
               [Call_GetTransaction,
                Call_PerformVectorizedRead tid_start tid_end num_elements]\<rparr>)"

text \<open>
  \<open>ScanConsumer::ProcessTuples\<close>, the branch without \<open>ORIGINAL_ORDER\<close>. The attribute
  accessors that \<open>SetupRowBatch\<close> adds to the batch do not touch the selection vector
  and are left out.
\<close>

definition ProcessTuples ::
  "Runtime \<Rightarrow> SeqScanPlan \<Rightarrow> u32 \<Rightarrow> u32 \<Rightarrow> ScanState \<Rightarrow> error + ScanState" where
  "ProcessTuples rt plan tid_start tid_end st =
     (let predicate = GetPredicate plan;
          filtered = (if predicate \<noteq> None
                      then FilterRowsByPredicate rt plan tid_start tid_end st
                      else Inr (st\<lparr>selection_vector :=
                                     SetNumElements (selection_vector st) (- 1)\<rparr>))
      in case filtered of
           Inl e \<Rightarrow> Inl e
         | Inr st \<Rightarrow>
             (let st = FilterRowsByVisibility rt tid_start tid_end st;
                  batch = \<lparr>batch_tid_start = tid_start, batch_tid_end = tid_end,
                           batch_selection_vector = selection_vector st, batch_filtered = True\<rparr>
              in Inr (st\<lparr>calls := calls st @ [Call_Consume batch]\<rparr>)))"

subsection \<open>What a pass decides for one row\<close>

text \<open>
  The decisions of the lane loop and of the scalar loops, read row by row; the
  theorems below show that the loops compute them. In the lane loop an operand is
  null in a row only through the null bits that \<open>materialize\<close> builds.
\<close>

definition lane_is_null :: "Runtime \<Rightarrow> Operand \<Rightarrow> u32 \<Rightarrow> bool" where
  "lane_is_null rt e tid =
     (case e of
        ConstantValueExpression c const_is_null \<Rightarrow> False
      | TupleValueExpression ai \<Rightarrow>
          attr_nullable ai \<and> column_value rt (attribute_id ai) tid = null_value rt (attr_type ai))"

definition lane_row_valid :: "Runtime \<Rightarrow> ComparisonExpression \<Rightarrow> u32 \<Rightarrow> bool" where
  "lane_row_valid rt p tid =
     (case comparison_of (GetExpressionType p) of
        None \<Rightarrow> False
      | Some cmp \<Rightarrow>
          cmp (operand_value rt (GetChild0 p) tid) (operand_value rt (GetChild1 p) tid) \<and>
          \<not> lane_is_null rt (GetChild0 p) tid \<and> \<not> lane_is_null rt (GetChild1 p) tid)"

definition scalar_row_valid :: "Runtime \<Rightarrow> ComparisonExpression \<Rightarrow> u32 \<Rightarrow> bool" where
  "scalar_row_valid rt p tid = Reify (DeriveValue_cmp rt p tid)"

text \<open>
  The size of the aligned prefix of a range, and the decision of the first part of
  the predicate filter for a row of the range: the lane loop's when the row lies in
  the aligned prefix, the post-batch loop's otherwise.
\<close>

definition align_size_of :: "u32 \<Rightarrow> u32 \<Rightarrow> u32" where
  "align_size_of tid_start tid_end = of_nat N * ((tid_end - tid_start) div of_nat N)"

definition simd_valid :: "Runtime \<Rightarrow> ComparisonExpression list \<Rightarrow> u32 \<Rightarrow> u32 \<Rightarrow> u32 \<Rightarrow> bool" where
  "simd_valid rt simd_predicates tid_start tid_end tid =
     (if tid - tid_start < align_size_of tid_start tid_end
      then list_all (\<lambda>p. lane_row_valid rt p tid) simd_predicates
      else list_all (\<lambda>p. scalar_row_valid rt p tid) simd_predicates)"

text \<open>
  A batch and a write position have written the list \<open>xs\<close>: the position is its
  length and the selection vector starts with it.
\<close>

definition written :: "RowBatch \<times> u32 \<Rightarrow> u32 list \<Rightarrow> bool" where
  "written s xs =
     (unat (snd s) = length xs \<and> buf_take (batch_selection_vector (fst s)) (length xs) = xs)"

definition is_comparison :: "ComparisonExpression \<Rightarrow> bool" where
  "is_comparison p = (comparison_of (GetExpressionType p) \<noteq> None)"

text \<open>The null bit of a lane, none where the value carries no null bits.\<close>

definition null_bit :: "bool list option \<Rightarrow> nat \<Rightarrow> bool" where
  "null_bit ns i = (case ns of None \<Rightarrow> False | Some bs \<Rightarrow> bs ! i)"

text \<open>Whether a call is the push of a batch into the pipeline.\<close>

definition is_Consume :: "RuntimeCall \<Rightarrow> bool" where
  "is_Consume c = (case c of Call_Consume batch \<Rightarrow> True | _ \<Rightarrow> False)"

text \<open>
  The specification's reference for the lane loop: the predicates evaluated "scalarly
  row-by-row over the same range", a row surviving when every predicate reifies to
  true on it.
\<close>

definition scalar_reference :: "Runtime \<Rightarrow> ComparisonExpression list \<Rightarrow> u32 \<Rightarrow> nat \<Rightarrow> u32 list" where
  "scalar_reference rt simd_predicates tid_start n =
     filter (\<lambda>tid. list_all (\<lambda>p. scalar_row_valid rt p tid) simd_predicates)
       (row_range tid_start n)"

text \<open>Whether an operand is a constant that is the SQL NULL.\<close>

definition is_null_constant :: "Operand \<Rightarrow> bool" where
  "is_null_constant e =
     (case e of ConstantValueExpression c const_is_null \<Rightarrow> const_is_null
      | TupleValueExpression ai \<Rightarrow> False)"

subsection \<open>Example inputs\<close>

text \<open>
  A tile group of forty rows whose columns hold 10 in rows 0 to 7 and in rows 32 and
  33 and 0 elsewhere, a transaction that does not see rows 3, 7 and 12, an empty
  selection vector, and plans over it.
\<close>

definition example_vector :: Vector where
  "example_vector = \<lparr>GetVectorPtr = (\<lambda>pos. 0), GetNumElements = 0\<rparr>"

definition example_state :: ScanState where
  "example_state = \<lparr>selection_vector = example_vector, calls = []\<rparr>"

definition example_rt :: Runtime where
  "example_rt =
     \<lparr>column_value = (\<lambda>col tid. if tid < 8 \<or> (32 \<le> tid \<and> tid < 34) then 10 else 0),
      null_value = (\<lambda>t. - 2147483648),
      undef_value = 0,
      visible = (\<lambda>tid. tid \<noteq> 3 \<and> tid \<noteq> 7 \<and> tid \<noteq> 12)\<rparr>"

definition whole_predicate :: AbstractExpression where
  "whole_predicate =
     \<lparr>IsSIMDable = False, GetValueType = Boolean,
      DeriveValue = (\<lambda>tid. if tid = 1 then None else Some (tid \<noteq> 2))\<rparr>"

definition fallback_plan :: SeqScanPlan where
  "fallback_plan =
     \<lparr>GetTableName = ''t'', GetPredicate = Some whole_predicate, GetSIMDPredicates = [],
      GetNonSIMDPredicate = None\<rparr>"

definition col_a :: AttributeInfo where
  "col_a = \<lparr>attribute_id = 0, attr_type = OtherType 0, attr_nullable = True\<rparr>"

definition greater_than_5 :: ComparisonExpression where
  "greater_than_5 =
     \<lparr>GetExpressionType = COMPARE_GREATERTHAN, GetChild0 = TupleValueExpression col_a,
      GetChild1 = ConstantValueExpression 5 False\<rparr>"

definition residual_example :: AbstractExpression where
  "residual_example =
     \<lparr>IsSIMDable = False, GetValueType = Boolean,
      DeriveValue = (\<lambda>tid. if tid = 32 then None else Some (tid \<noteq> 4))\<rparr>"

definition simd_plan :: SeqScanPlan where
  "simd_plan =
     \<lparr>GetTableName = ''t'',
      GetPredicate = Some (residual_example\<lparr>IsSIMDable := True\<rparr>),
      GetSIMDPredicates = [greater_than_5],
      GetNonSIMDPredicate = Some residual_example\<rparr>"

definition scan_all_plan :: SeqScanPlan where
  "scan_all_plan =
     \<lparr>GetTableName = ''t'', GetPredicate = None, GetSIMDPredicates = [],
      GetNonSIMDPredicate = None\<rparr>"

text \<open>
  A comparison whose expression type is none of the six that the \<open>switch\<close> of the
  lane loop knows, a plan that has it among its SIMD predicates, and a plan whose
  non-SIMD predicate has a type that is not Boolean.
\<close>

definition other_expression :: ComparisonExpression where
  "other_expression =
     \<lparr>GetExpressionType = OTHER_EXPRESSION, GetChild0 = TupleValueExpression col_a,
      GetChild1 = ConstantValueExpression 5 False\<rparr>"

definition other_plan :: SeqScanPlan where
  "other_plan = simd_plan\<lparr>GetSIMDPredicates := [greater_than_5, other_expression]\<rparr>"

definition integer_plan :: SeqScanPlan where
  "integer_plan = simd_plan\<lparr>GetNonSIMDPredicate := Some (residual_example\<lparr>GetValueType := OtherType 4\<rparr>)\<rparr>"

text \<open>A scan without a predicate over a table whose name ends in digits.\<close>

definition t32_plan :: SeqScanPlan where
  "t32_plan = scan_all_plan\<lparr>GetTableName := ''t32''\<rparr>"

text \<open>
  The comparison \<open>a > NULL\<close>: the constant is the SQL NULL and its raw value is the
  NULL value of the type. As a whole predicate it derives to NULL in every row.
\<close>

definition greater_than_null :: ComparisonExpression where
  "greater_than_null =
     \<lparr>GetExpressionType = COMPARE_GREATERTHAN, GetChild0 = TupleValueExpression col_a,
      GetChild1 = ConstantValueExpression (- 2147483648) True\<rparr>"

definition null_comparison :: AbstractExpression where
  "null_comparison =
     \<lparr>IsSIMDable = True, GetValueType = Boolean, DeriveValue = (\<lambda>tid. None)\<rparr>"

definition null_constant_plan :: SeqScanPlan where
  "null_constant_plan =
     \<lparr>GetTableName = ''t'', GetPredicate = Some null_comparison,
      GetSIMDPredicates = [greater_than_null], GetNonSIMDPredicate = None\<rparr>"

text \<open>
  The comparison \<open>a < 5\<close>, and a tile group whose column is NULL in rows 2 and 35 and
  0 in every other row.
\<close>

definition less_than_5 :: ComparisonExpression where
  "less_than_5 =
     \<lparr>GetExpressionType = COMPARE_LESSTHAN, GetChild0 = TupleValueExpression col_a,
      GetChild1 = ConstantValueExpression 5 False\<rparr>"

definition null_row_rt :: Runtime where
  "null_row_rt =
     example_rt\<lparr>column_value := (\<lambda>col tid. if tid = 2 \<or> tid = 35 then - 2147483648 else 0)\<rparr>"

text \<open>
  What the predicate filter as a whole decides for a row of the range: the decision
  of its first part and, where there is a non-SIMD predicate, that predicate reified.
\<close>

definition predicate_valid :: "Runtime \<Rightarrow> SeqScanPlan \<Rightarrow> u32 \<Rightarrow> u32 \<Rightarrow> u32 \<Rightarrow> bool" where
  "predicate_valid rt plan tid_start tid_end tid =
     (simd_valid rt (GetSIMDPredicates plan) tid_start tid_end tid \<and>
      (case residual_predicate plan of None \<Rightarrow> True | Some p \<Rightarrow> Reify (DeriveValue p tid)))"

section \<open>Properties\<close>

subsection \<open>Positions and the buffer\<close>

lemma unat_of_nat32: "i < 2 ^ 32 \<Longrightarrow> unat (of_nat i :: u32) = i"
  by (simp add: unat_of_nat)

lemma unat_lt32: "unat (w :: u32) < 2 ^ 32"
  using unsigned_less [of w, where ?'a = nat] by simp

lemma buf_take_Suc: "buf_take v (Suc n) = buf_take v n @ [GetVectorPtr v (of_nat n)]"
  by (simp add: buf_take_def)

lemma buf_take_SetValue_below:
  assumes "n \<le> unat pos"
  shows "buf_take (SetValue v pos x) n = buf_take v n"
proof -
  have "\<And>i. i < n \<Longrightarrow> (of_nat i :: u32) \<noteq> pos"
  proof
    fix i assume "i < n" and eq: "(of_nat i :: u32) = pos"
    have "i < 2 ^ 32" using \<open>i < n\<close> assms unat_lt32 [of pos] by simp
    then have "unat (of_nat i :: u32) = i" by (rule unat_of_nat32)
    with eq \<open>i < n\<close> assms show False by simp
  qed
  then show ?thesis by (simp add: buf_take_def SetValue_def)
qed

lemma buf_take_SetValue_append:
  "buf_take (SetValue v pos x) (Suc (unat pos)) = buf_take v (unat pos) @ [x]"
  by (simp add: buf_take_Suc buf_take_SetValue_below) (simp add: SetValue_def)

lemma unat_Suc32: "unat (w :: u32) + 1 < 2 ^ 32 \<Longrightarrow> unat (w + 1) = Suc (unat w)"
proof -
  assume "unat w + 1 < 2 ^ 32"
  then have "unat w + unat (1 :: u32) < 2 ^ LENGTH(32)" by simp
  then have "unat (w + 1) = unat w + unat (1 :: u32)" by (simp only: unat_add_lem)
  then show ?thesis by simp
qed

lemma written_SetValidity:
  assumes w: "written (b, wp) xs" and len: "length xs + 1 < 2 ^ 32"
  shows "written (SetValidity b wp tid valid) (if valid then xs @ [tid] else xs)"
proof (cases valid)
  case False
  with w show ?thesis by (simp add: SetValidity_def)
next
  case True
  from w have u: "unat wp = length xs" and t: "buf_take (batch_selection_vector b) (length xs) = xs"
    by (simp_all add: written_def)
  have "unat (wp + 1) = Suc (length xs)"
    using unat_Suc32 [of wp] u len by simp
  moreover have "buf_take (SetValue (batch_selection_vector b) wp tid) (Suc (length xs)) = xs @ [tid]"
    using buf_take_SetValue_append [of "batch_selection_vector b" wp tid] u t by simp
  ultimately show ?thesis using True by (simp add: SetValidity_def written_def)
qed

lemma SetValidity_frame:
  "batch_filtered (fst (SetValidity b wp tid valid)) = batch_filtered b"
  "batch_tid_start (fst (SetValidity b wp tid valid)) = batch_tid_start b"
  "batch_tid_end (fst (SetValidity b wp tid valid)) = batch_tid_end b"
  by (simp_all add: SetValidity_def)

lemma scatter_fold:
  assumes "\<not> batch_filtered b" and "written (b, wp) xs" and "length xs + n < 2 ^ 32"
  shows "written (fold (\<lambda>i (b, fp). SetValidity b fp (GetTID b (start + of_nat i)) (m i)) [0..<n] (b, wp))
           (xs @ map (\<lambda>i. batch_tid_start b + (start + of_nat i)) (filter m [0..<n])) \<and>
         \<not> batch_filtered (fst (fold (\<lambda>i (b, fp). SetValidity b fp (GetTID b (start + of_nat i)) (m i)) [0..<n] (b, wp))) \<and>
         batch_tid_start (fst (fold (\<lambda>i (b, fp). SetValidity b fp (GetTID b (start + of_nat i)) (m i)) [0..<n] (b, wp))) = batch_tid_start b \<and>
         batch_tid_end (fst (fold (\<lambda>i (b, fp). SetValidity b fp (GetTID b (start + of_nat i)) (m i)) [0..<n] (b, wp))) = batch_tid_end b"
  using assms
proof (induction n)
  case 0
  then show ?case by simp
next
  case (Suc n)
  let ?f = "\<lambda>i (b, fp). SetValidity b fp (GetTID b (start + of_nat i)) (m i)"
  obtain b' fp where r: "fold ?f [0..<n] (b, wp) = (b', fp)" by (cases "fold ?f [0..<n] (b, wp)")
  let ?ys = "xs @ map (\<lambda>i. batch_tid_start b + (start + of_nat i)) (filter m [0..<n])"
  from Suc have ih: "written (b', fp) ?ys" "\<not> batch_filtered b'" "batch_tid_start b' = batch_tid_start b"
    "batch_tid_end b' = batch_tid_end b"
    by (simp_all add: r)
  have "length (filter m [0..<n]) \<le> n" using length_filter_le [of m "[0..<n]"] by simp
  with Suc.prems have len: "length ?ys + 1 < 2 ^ 32" by simp
  have tid: "GetTID b' (start + of_nat n) = batch_tid_start b + (start + of_nat n)"
    using ih by (simp add: GetTID_def)
  have step: "fold ?f [0..<Suc n] (b, wp) = SetValidity b' fp (batch_tid_start b + (start + of_nat n)) (m n)"
    by (simp add: r tid)
  show ?case
    unfolding step
    using written_SetValidity [OF ih(1) len, of "batch_tid_start b + (start + of_nat n)" "m n"] ih
    by (cases "m n") (simp_all add: SetValidity_frame)
qed

subsection \<open>The lane mask, lane by lane\<close>

lemma materialize_length:
  "length (lane_val (materialize rt ft m e)) = N"
  "lane_null (materialize rt ft m e) = Some bs \<Longrightarrow> length bs = N"
  by (auto simp: materialize_def CreateMaskedLoad_def Let_def split: Operand.splits if_splits)

lemma materialize_val:
  assumes "i < N" and "m ! i"
  shows "lane_val (materialize rt ft m e) ! i = operand_value rt e (ft + of_nat i)"
  using assms
  by (auto simp: materialize_def CreateMaskedLoad_def operand_value_def Let_def split: Operand.splits)

lemma materialize_null:
  assumes "i < N" and "m ! i"
  shows "null_bit (lane_null (materialize rt ft m e)) i = lane_is_null rt e (ft + of_nat i)"
  using assms
  by (auto simp: materialize_def CreateMaskedLoad_def lane_is_null_def null_bit_def Let_def
      split: Operand.splits)

lemma null_bit_null_or:
  assumes "\<And>x. a = Some x \<Longrightarrow> i < length x" and "\<And>y. b = Some y \<Longrightarrow> i < length y"
  shows "null_bit (null_or a b) i = (null_bit a i \<or> null_bit b i)"
  using assms by (auto simp: null_bit_def null_or_def split: option.splits)

lemma null_or_length:
  assumes "\<And>x. a = Some x \<Longrightarrow> length x = n" and "\<And>y. b = Some y \<Longrightarrow> length y = n"
    and "null_or a b = Some z"
  shows "length z = n"
  using assms by (auto simp: null_or_def split: option.splits)

lemma Reify_Compare_nth:
  assumes "length (lane_val l) = n" "length (lane_val r) = n"
    and "\<And>x. lane_null l = Some x \<Longrightarrow> length x = n" and "\<And>y. lane_null r = Some y \<Longrightarrow> length y = n"
    and "i < n"
  shows "length (Reify_lanes (Compare cmp l r)) = n"
    and "Reify_lanes (Compare cmp l r) ! i =
      (cmp (lane_val l ! i) (lane_val r ! i) \<and> \<not> null_bit (lane_null l) i \<and> \<not> null_bit (lane_null r) i)"
  using assms
  by (auto simp: Reify_lanes_def Compare_def null_or_def null_bit_def split: option.splits)


lemma switch_compare_comparison:
  "comparison_of t = Some cmp \<Longrightarrow> switch_compare t l r = Compare cmp l r"
  by (cases t) (auto simp: switch_compare_def)

lemma simd_step_nth:
  assumes cmp: "is_comparison p" and len: "length m = N" and i: "i < N"
  shows "length (simd_step rt ft p m) = N"
    and "simd_step rt ft p m ! i = (m ! i \<and> lane_row_valid rt p (ft + of_nat i))"
proof -
  from cmp obtain c where c: "comparison_of (GetExpressionType p) = Some c"
    by (auto simp: is_comparison_def)
  let ?l = "materialize rt ft m (GetChild0 p)" and ?r = "materialize rt ft m (GetChild1 p)"
  have step: "simd_step rt ft p m = map2 (\<and>) m (Reify_lanes (Compare c ?l ?r))"
    by (simp add: simd_step_def Let_def switch_compare_comparison [OF c])
  have lens: "length (Reify_lanes (Compare c ?l ?r)) = N"
    by (rule Reify_Compare_nth(1) [where i = i]) (simp_all add: materialize_length i)
  show "length (simd_step rt ft p m) = N"
    by (simp add: step lens len)
  have nth: "Reify_lanes (Compare c ?l ?r) ! i =
      (c (lane_val ?l ! i) (lane_val ?r ! i) \<and> \<not> null_bit (lane_null ?l) i \<and> \<not> null_bit (lane_null ?r) i)"
    by (rule Reify_Compare_nth(2) [where n = N]) (simp_all add: materialize_length i)
  show "simd_step rt ft p m ! i = (m ! i \<and> lane_row_valid rt p (ft + of_nat i))"
  proof (cases "m ! i")
    case False
    then show ?thesis by (simp add: step lens len i)
  next
    case True
    then show ?thesis
      by (simp add: step lens len i nth materialize_val materialize_null lane_row_valid_def c)
  qed
qed

lemma simd_fold_nth:
  assumes "list_all is_comparison ps" and "length m = N" and "i < N"
  shows "length (fold (simd_step rt ft) ps m) = N \<and>
    fold (simd_step rt ft) ps m ! i = (m ! i \<and> list_all (\<lambda>p. lane_row_valid rt p (ft + of_nat i)) ps)"
  using assms
proof (induction ps arbitrary: m)
  case Nil
  then show ?case by simp
next
  case (Cons p ps)
  from Cons.prems have p: "is_comparison p" and ps: "list_all is_comparison ps" by simp_all
  have l: "length (simd_step rt ft p m) = N"
    by (rule simd_step_nth(1) [OF p Cons.prems(2) Cons.prems(3)])
  show ?case
    using Cons.IH [OF ps l Cons.prems(3)] simd_step_nth(2) [OF p Cons.prems(2) Cons.prems(3), of rt ft]
    by auto
qed

lemma simd_mask_nth:
  assumes "list_all is_comparison ps" and "i < N"
  shows "simd_mask rt ps ft ! i = list_all (\<lambda>p. lane_row_valid rt p (ft + of_nat i)) ps"
  using simd_fold_nth [OF assms(1) _ assms(2), of "replicate N True" rt ft] assms(2)
  by (simp add: simd_mask_def)

lemma scalar_fold:
  "fold (\<lambda>p lane_mask. lane_mask \<and> Reify (DeriveValue_cmp rt p tid)) ps m =
     (m \<and> list_all (\<lambda>p. scalar_row_valid rt p tid) ps)"
  by (induction ps arbitrary: m) (auto simp: scalar_row_valid_def)

lemma scalar_mask_eq:
  "scalar_mask rt ps tid = list_all (\<lambda>p. scalar_row_valid rt p tid) ps"
  by (simp add: scalar_mask_def scalar_fold)

subsection \<open>The lane loop\<close>

lemma row_range_append:
  "row_range a (n + m) = row_range a n @ row_range (a + of_nat n) m"
proof -
  have "[n..<n + m] = map (\<lambda>i. n + i) [0..<m]"
    using map_add_upt [of n m] by (simp add: add.commute)
  moreover have "[0..<n + m] = [0..<n] @ [n..<n + m]"
    by (rule upt_add_eq_append) simp
  ultimately have "[0..<n + m] = [0..<n] @ map (\<lambda>i. n + i) [0..<m]"
    by simp
  then show ?thesis
    by (simp add: row_range_def o_def add.assoc)
qed

lemma ProcessRows_written:
  assumes ps: "list_all is_comparison ps" and nf: "\<not> batch_filtered b"
    and w: "written (b, wp) xs" and len: "length xs + N < 2 ^ 32"
  shows "written (ProcessRows rt ps start (b, wp))
           (xs @ filter (\<lambda>tid. list_all (\<lambda>p. lane_row_valid rt p tid) ps)
                   (row_range (batch_tid_start b + start) N)) \<and>
         \<not> batch_filtered (fst (ProcessRows rt ps start (b, wp))) \<and>
         batch_tid_start (fst (ProcessRows rt ps start (b, wp))) = batch_tid_start b \<and>
         batch_tid_end (fst (ProcessRows rt ps start (b, wp))) = batch_tid_end b"
proof -
  let ?ft = "batch_tid_start b + start"
  let ?m = "\<lambda>i. simd_mask rt ps ?ft ! i"
  let ?P = "\<lambda>tid. list_all (\<lambda>p. lane_row_valid rt p tid) ps"
  have pr: "ProcessRows rt ps start (b, wp) =
      fold (\<lambda>i (b, fp). SetValidity b fp (GetTID b (start + of_nat i)) (?m i)) [0..<N] (b, wp)"
    using nf by (simp add: ProcessRows_def GetTID_def Let_def)
  have "filter ?m [0..<N] = filter (\<lambda>i. ?P (?ft + of_nat i)) [0..<N]"
    by (rule filter_cong) (simp_all add: simd_mask_nth [OF ps])
  then have sel: "map (\<lambda>i. batch_tid_start b + (start + of_nat i)) (filter ?m [0..<N]) =
      filter ?P (row_range ?ft N)"
    by (simp add: row_range_def filter_map o_def add.assoc)
  show ?thesis
    unfolding pr using scatter_fold [OF nf w len, of start ?m] by (simp add: sel)
qed

lemma unat_of_nat_N: "unat (of_nat N :: u32) = N"
  by (simp add: N_def)

lemma vectorized_loop_written:
  assumes ps: "list_all is_comparison ps" and nf: "\<not> batch_filtered b"
    and w: "written (b, wp) xs" and st: "unat start = N * j"
    and le: "length xs \<le> N * j" and bound: "N * (j + k) < 2 ^ 32"
  shows "written (vectorized_loop (ProcessRows rt ps) k start (b, wp))
           (xs @ filter (\<lambda>tid. list_all (\<lambda>p. lane_row_valid rt p tid) ps)
                   (row_range (batch_tid_start b + start) (N * k))) \<and>
         \<not> batch_filtered (fst (vectorized_loop (ProcessRows rt ps) k start (b, wp))) \<and>
         batch_tid_start (fst (vectorized_loop (ProcessRows rt ps) k start (b, wp))) = batch_tid_start b \<and>
         batch_tid_end (fst (vectorized_loop (ProcessRows rt ps) k start (b, wp))) = batch_tid_end b"
  using nf w st le bound
proof (induction k arbitrary: j start b wp xs)
  case 0
  then show ?case by (simp add: row_range_def)
next
  case (Suc k)
  let ?P = "\<lambda>tid. list_all (\<lambda>p. lane_row_valid rt p tid) ps"
  obtain b' wp' where r: "ProcessRows rt ps start (b, wp) = (b', wp')"
    by (cases "ProcessRows rt ps start (b, wp)")
  let ?ys = "xs @ filter ?P (row_range (batch_tid_start b + start) N)"
  have mono: "N * j + N \<le> N * (j + Suc k)"
    by (simp add: distrib_left)
  then have len: "length xs + N < 2 ^ 32"
    using Suc.prems(4,5) by linarith
  from ProcessRows_written [OF ps Suc.prems(1) Suc.prems(2) len, of rt start]
  have w': "written (b', wp') ?ys" and nf': "\<not> batch_filtered b'"
    and ts: "batch_tid_start b' = batch_tid_start b" and te: "batch_tid_end b' = batch_tid_end b"
    unfolding r by simp_all
  have "length (filter ?P (row_range (batch_tid_start b + start) N)) \<le> N"
    using length_filter_le [of ?P "row_range (batch_tid_start b + start) N"]
    by (simp add: row_range_def)
  then have le': "length ?ys \<le> N * Suc j"
    using Suc.prems(4) by simp
  have "N * (Suc j + k) = N * (j + Suc k)"
    by simp
  then have bound': "N * (Suc j + k) < 2 ^ 32"
    using Suc.prems(5) by (simp only:)
  have "N * j + N < 2 ^ 32"
    using mono Suc.prems(5) by linarith
  then have "unat start + unat (of_nat N :: u32) < 2 ^ LENGTH(32)"
    using Suc.prems(3) by (simp add: unat_of_nat_N)
  then have "unat (start + of_nat N) = unat start + unat (of_nat N :: u32)"
    by (simp only: unat_add_lem)
  then have st': "unat (start + of_nat N) = N * Suc j"
    using Suc.prems(3) by (simp add: unat_of_nat_N)
  have split: "row_range (batch_tid_start b + start) (N + N * k) =
      row_range (batch_tid_start b + start) N @ row_range (batch_tid_start b + (start + of_nat N)) (N * k)"
    using row_range_append [of "batch_tid_start b + start" N "N * k"]
    by (simp only: add.assoc)
  have step: "vectorized_loop (ProcessRows rt ps) (Suc k) start (b, wp) =
      vectorized_loop (ProcessRows rt ps) k (start + of_nat N) (b', wp')"
    by (simp add: r)
  show ?case
    unfolding step using Suc.IH [OF nf' w' st' le' bound'] by (simp add: ts te split)
qed

subsection \<open>The post-batch loop\<close>

lemma row_range_Cons: "row_range a (Suc n) = a # row_range (a + 1) n"
proof -
  have "row_range a (1 + n) = row_range a 1 @ row_range (a + of_nat 1) n"
    by (rule row_range_append)
  then show ?thesis by (simp add: row_range_def)
qed

lemma post_batch_loop_written:
  assumes "\<not> batch_filtered (fst s)" and "written s xs" and "length xs \<le> unat idx_cur"
  shows "written (post_batch_loop rt ps orig_size idx_cur s)
           (xs @ filter (scalar_mask rt ps)
                   (row_range (batch_tid_start (fst s) + idx_cur) (unat orig_size - unat idx_cur))) \<and>
         \<not> batch_filtered (fst (post_batch_loop rt ps orig_size idx_cur s)) \<and>
         batch_tid_start (fst (post_batch_loop rt ps orig_size idx_cur s)) = batch_tid_start (fst s) \<and>
         batch_tid_end (fst (post_batch_loop rt ps orig_size idx_cur s)) = batch_tid_end (fst s)"
  using assms
proof (induction rt ps orig_size idx_cur s arbitrary: xs rule: post_batch_loop.induct)
  case (1 rt ps orig_size idx_cur s)
  show ?case
  proof (cases "idx_cur < orig_size")
    case False
    then have "unat orig_size - unat idx_cur = 0"
      by (simp add: word_less_nat_alt)
    with False "1.prems" show ?thesis
      by (subst (1 2 3 4) post_batch_loop.simps) (simp add: row_range_def)
  next
    case True
    let ?tid = "batch_tid_start (fst s) + idx_cur"
    let ?valid = "scalar_mask rt ps ?tid"
    let ?s' = "SetValidity (fst s) (snd s) ?tid ?valid"
    let ?ys = "if ?valid then xs @ [?tid] else xs"
    have lt: "unat idx_cur < unat orig_size"
      using True by (simp add: word_less_nat_alt)
    have b32: "unat orig_size < 2 ^ 32" by (rule unat_lt32)
    have suc: "unat (idx_cur + 1) = Suc (unat idx_cur)"
      using unat_Suc32 [of idx_cur] lt b32 by simp
    have tid: "GetTID (fst s) idx_cur = ?tid"
      using "1.prems"(1) by (simp add: GetTID_def)
    have len: "length xs + 1 < 2 ^ 32"
      using "1.prems"(3) lt b32 by simp
    have w': "written ?s' ?ys"
      using written_SetValidity [OF _ len, of "fst s" "snd s" ?tid ?valid] "1.prems"(2) by simp
    have nf': "\<not> batch_filtered (fst ?s')"
      using "1.prems"(1) by (simp add: SetValidity_frame)
    have le': "length ?ys \<le> unat (idx_cur + 1)"
      using "1.prems"(3) suc by simp
    have step: "post_batch_loop rt ps orig_size idx_cur s =
        post_batch_loop rt ps orig_size (idx_cur + 1) ?s'"
      using True by (subst post_batch_loop.simps) (simp add: tid)
    have range: "row_range ?tid (unat orig_size - unat idx_cur) =
        ?tid # row_range (batch_tid_start (fst s) + (idx_cur + 1)) (unat orig_size - unat (idx_cur + 1))"
      using row_range_Cons [of ?tid "unat orig_size - Suc (unat idx_cur)"] lt suc
      by (simp add: Suc_diff_Suc add.assoc)
    from "1.IH" [OF True, unfolded tid, OF nf' w' le']
    show ?thesis
      unfolding step range by (cases ?valid) (simp_all add: SetValidity_frame)
  qed
qed

subsection \<open>The first part of the predicate filter\<close>

lemma unat_align_size: "unat (align_size_of a b) = N * (unat (b - a) div N)"
proof -
  let ?o = "b - a"
  have d: "unat (?o div of_nat N) = unat ?o div N"
    by (simp add: unat_div unat_of_nat_N)
  have "N * (unat ?o div N) \<le> unat ?o"
    by simp
  then have "N * (unat ?o div N) < 2 ^ 32"
    using unat_lt32 [of ?o] by linarith
  then have "unat (of_nat N :: u32) * unat (?o div of_nat N) < 2 ^ LENGTH(32)"
    by (simp add: d unat_of_nat_N)
  then have "unat (of_nat N * (?o div of_nat N)) = unat (of_nat N :: u32) * unat (?o div of_nat N)"
    by (simp only: unat_mult_lem)
  then show ?thesis
    by (simp add: align_size_of_def d unat_of_nat_N)
qed

lemma align_size_le: "unat (align_size_of a b) \<le> unat (b - a)"
  by (simp add: unat_align_size)

lemma N_pos: "0 < N"
  by (simp add: N_def)

lemma simd_valid_prefix:
  assumes "tid \<in> set (row_range a (unat (align_size_of a b)))"
  shows "simd_valid rt ps a b tid = list_all (\<lambda>p. lane_row_valid rt p tid) ps"
proof -
  from assms obtain i where i: "i < unat (align_size_of a b)" and tid: "tid = a + of_nat i"
    by (auto simp: row_range_def)
  have "i < 2 ^ 32" using i unat_lt32 [of "align_size_of a b"] by simp
  then have "unat (of_nat i :: u32) = i" by (rule unat_of_nat32)
  then have "(of_nat i :: u32) < align_size_of a b"
    using i by (simp add: word_less_nat_alt)
  then show ?thesis by (simp add: simd_valid_def tid)
qed

lemma simd_valid_rest:
  assumes "tid \<in> set (row_range (a + align_size_of a b) (unat (b - a) - unat (align_size_of a b)))"
  shows "simd_valid rt ps a b tid = scalar_mask rt ps tid"
proof -
  let ?al = "align_size_of a b"
  from assms obtain i where i: "i < unat (b - a) - unat ?al" and tid: "tid = a + ?al + of_nat i"
    by (auto simp: row_range_def)
  have i32: "i < 2 ^ 32" using i unat_lt32 [of "b - a"] by simp
  then have ui: "unat (of_nat i :: u32) = i" by (rule unat_of_nat32)
  have "unat ?al + unat (of_nat i :: u32) < 2 ^ LENGTH(32)"
    using i ui unat_lt32 [of "b - a"] by simp
  then have "unat (?al + of_nat i) = unat ?al + unat (of_nat i :: u32)"
    by (simp only: unat_add_lem)
  then have "\<not> (?al + of_nat i < ?al)"
    by (simp add: word_less_nat_alt)
  moreover have "tid - a = ?al + of_nat i"
    by (simp add: tid)
  ultimately show ?thesis
    by (simp add: simd_valid_def scalar_mask_eq)
qed

lemma simd_valid_filter:
  "filter (simd_valid rt ps a b) (row_range a (unat (b - a))) =
     filter (\<lambda>tid. list_all (\<lambda>p. lane_row_valid rt p tid) ps) (row_range a (unat (align_size_of a b))) @
     filter (scalar_mask rt ps)
       (row_range (a + align_size_of a b) (unat (b - a) - unat (align_size_of a b)))"
proof -
  let ?al = "unat (align_size_of a b)"
  have "unat (b - a) = ?al + (unat (b - a) - ?al)"
    using align_size_le [of a b] by simp
  then have "row_range a (unat (b - a)) =
      row_range a ?al @ row_range (a + of_nat ?al) (unat (b - a) - ?al)"
    using row_range_append [of a ?al "unat (b - a) - ?al"] by simp
  then have split: "row_range a (unat (b - a)) =
      row_range a ?al @ row_range (a + align_size_of a b) (unat (b - a) - ?al)"
    by simp
  have one: "filter (simd_valid rt ps a b) (row_range a ?al) =
      filter (\<lambda>tid. list_all (\<lambda>p. lane_row_valid rt p tid) ps) (row_range a ?al)"
    by (rule filter_cong) (simp_all add: simd_valid_prefix)
  have two: "filter (simd_valid rt ps a b) (row_range (a + align_size_of a b) (unat (b - a) - ?al)) =
      filter (scalar_mask rt ps) (row_range (a + align_size_of a b) (unat (b - a) - ?al))"
    by (rule filter_cong) (simp_all add: simd_valid_rest)
  show ?thesis
    by (subst split) (simp add: one two)
qed


lemma written_empty: "written (b, 0) []"
  by (simp add: written_def buf_take_def)

lemma written_sel_list:
  assumes "written (b, wp) xs"
  shows "sel_list (batch_selection_vector (UpdateWritePosition b wp)) = xs"
  using assms
  by (simp add: written_def sel_list_def UpdateWritePosition_def SetNumElements_def buf_take_def)

lemma written_UpdateWritePosition:
  assumes "written (b, wp) xs"
  shows "written (SetFiltered (UpdateWritePosition b wp') f, wp) xs"
  using assms
  by (simp add: written_def SetFiltered_def UpdateWritePosition_def SetNumElements_def buf_take_def)

lemma ceil_div_N: "(N * q + N - 1) div N = q"
  unfolding N_def by presburger

theorem simd_pass_sel_list:
  assumes ps: "list_all is_comparison ps"
  shows "sel_list (simd_pass rt ps a b v) =
           filter (simd_valid rt ps a b) (row_range a (unat (b - a)))"
proof -
  let ?al = "align_size_of a b"
  let ?q = "unat (b - a) div N"
  let ?PL = "\<lambda>tid. list_all (\<lambda>p. lane_row_valid rt p tid) ps"
  let ?b0 = "\<lparr>batch_tid_start = a, batch_tid_end = a + ?al,
              batch_selection_vector = v, batch_filtered = False\<rparr>"
  have rows: "unat (GetNumValidRows ?b0) = N * ?q"
    by (simp add: GetNumValidRows_def unat_align_size)
  obtain b1 wp1 where r1: "vectorized_loop (ProcessRows rt ps) ?q 0 (?b0, 0) = (b1, wp1)"
    by (cases "vectorized_loop (ProcessRows rt ps) ?q 0 (?b0, 0)")
  have bound: "N * (0 + ?q) < 2 ^ 32"
    using unat_lt32 [of ?al] by (simp add: unat_align_size)
  have "written (vectorized_loop (ProcessRows rt ps) ?q 0 (?b0, 0))
          ([] @ filter ?PL (row_range (batch_tid_start ?b0 + 0) (N * ?q))) \<and>
        \<not> batch_filtered (fst (vectorized_loop (ProcessRows rt ps) ?q 0 (?b0, 0))) \<and>
        batch_tid_start (fst (vectorized_loop (ProcessRows rt ps) ?q 0 (?b0, 0))) = batch_tid_start ?b0 \<and>
        batch_tid_end (fst (vectorized_loop (ProcessRows rt ps) ?q 0 (?b0, 0))) = batch_tid_end ?b0"
    by (rule vectorized_loop_written [OF ps _ written_empty _ _ bound]) simp_all
  then have w1: "written (b1, wp1) (filter ?PL (row_range a (unat ?al)))"
    and ts1: "batch_tid_start b1 = a"
    unfolding r1 by (simp_all add: unat_align_size)
  have iters: "(unat (GetNumValidRows ?b0) + N - 1) div N = ?q"
    unfolding rows by (rule ceil_div_N)
  have vi: "VectorizedIterate ?b0 (ProcessRows rt ps) = UpdateWritePosition b1 wp1"
    unfolding VectorizedIterate_def Let_def iters r1 by simp
  let ?b2 = "SetFiltered (UpdateWritePosition b1 wp1) False"
  have cnt: "GetNumElements (batch_selection_vector ?b2) = wp1"
    by (simp add: SetFiltered_def UpdateWritePosition_def SetNumElements_def)
  have w2: "written (?b2, wp1) (filter ?PL (row_range a (unat ?al)))"
    by (rule written_UpdateWritePosition [OF w1])
  have nf2: "\<not> batch_filtered (fst (?b2, wp1))"
    by (simp add: SetFiltered_def)
  have ts2: "batch_tid_start (fst (?b2, wp1)) = a"
    by (simp add: SetFiltered_def UpdateWritePosition_def ts1)
  have le2: "length (filter ?PL (row_range a (unat ?al))) \<le> unat ?al"
    using length_filter_le [of ?PL "row_range a (unat ?al)"] by (simp add: row_range_def)
  obtain b3 wp3 where r3: "post_batch_loop rt ps (b - a) ?al (?b2, wp1) = (b3, wp3)"
    by (cases "post_batch_loop rt ps (b - a) ?al (?b2, wp1)")
  from post_batch_loop_written [OF nf2 w2 le2, of rt ps "b - a"]
  have w3: "written (b3, wp3)
      (filter ?PL (row_range a (unat ?al)) @
       filter (scalar_mask rt ps) (row_range (a + ?al) (unat (b - a) - unat ?al)))"
    unfolding r3 ts2 by simp
  have "simd_pass rt ps a b v = batch_selection_vector (UpdateWritePosition b3 wp3)"
    by (simp add: simd_pass_def Let_def vi cnt r3 align_size_of_def [symmetric])
  then show ?thesis
    using written_sel_list [OF w3] by (simp add: simd_valid_filter)
qed

subsection \<open>The pass of the non-SIMD predicate\<close>

lemma of_nat_neq32:
  assumes "i < 2 ^ 32" and "i \<noteq> unat (w :: u32)"
  shows "(of_nat i :: u32) \<noteq> w"
  using assms unat_of_nat32 [of i] by auto

lemma iterate_loop_written:
  fixes V :: "u32 \<Rightarrow> bool" and f :: "nat \<Rightarrow> u32"
  assumes "batch_filtered (fst s)" and "written s xs" and "length xs \<le> unat pos"
    and "\<forall>i. unat pos \<le> i \<and> i < unat n \<longrightarrow> GetVectorPtr (batch_selection_vector (fst s)) (of_nat i) = f i"
  shows "written (iterate_loop (\<lambda>b pos wp. SetValidity b wp (GetTID b pos) (V (GetTID b pos))) n pos s)
           (xs @ filter V (map f [unat pos..<unat n]))"
  using assms
proof (induction "\<lambda>b pos wp. SetValidity b wp (GetTID b pos) (V (GetTID b pos))" n pos s
    arbitrary: xs rule: iterate_loop.induct)
  case (1 n pos s)
  let ?cb = "\<lambda>b pos wp. SetValidity b wp (GetTID b pos) (V (GetTID b pos))"
  show ?case
  proof (cases "pos < n")
    case False
    then have "unat n \<le> unat pos"
      by (simp add: word_less_nat_alt)
    then have "[unat pos..<unat n] = []"
      by simp
    then show ?thesis
      using False "1.prems"(2) by (subst iterate_loop.simps) (simp only: if_False filter.simps list.map append_Nil2)
  next
    case True
    have lt: "unat pos < unat n"
      using True by (simp add: word_less_nat_alt)
    have b32: "unat n < 2 ^ 32" by (rule unat_lt32)
    have suc: "unat (pos + 1) = Suc (unat pos)"
      using unat_Suc32 [of pos] lt b32 by simp
    let ?tid = "f (unat pos)"
    have "GetVectorPtr (batch_selection_vector (fst s)) (of_nat (unat pos)) = ?tid"
      using "1.prems"(4) lt by blast
    then have tid: "GetTID (fst s) pos = ?tid"
      using "1.prems"(1) by (simp add: GetTID_def)
    let ?s' = "SetValidity (fst s) (snd s) ?tid (V ?tid)"
    let ?ys = "if V ?tid then xs @ [?tid] else xs"
    have len: "length xs + 1 < 2 ^ 32"
      using "1.prems"(3) lt b32 by simp
    have w': "written ?s' ?ys"
      using written_SetValidity [OF _ len, of "fst s" "snd s" ?tid "V ?tid"] "1.prems"(2) by simp
    have f': "batch_filtered (fst ?s')"
      using "1.prems"(1) by (simp add: SetValidity_frame)
    have le': "length ?ys \<le> unat (pos + 1)"
      using "1.prems"(3) suc by simp
    have wp: "unat (snd s) = length xs"
      using "1.prems"(2) by (simp add: written_def)
    have rest: "\<forall>i. unat (pos + 1) \<le> i \<and> i < unat n \<longrightarrow>
        GetVectorPtr (batch_selection_vector (fst ?s')) (of_nat i) = f i"
    proof (intro allI impI)
      fix i assume i: "unat (pos + 1) \<le> i \<and> i < unat n"
      then have "i \<noteq> unat (snd s)" and "i < 2 ^ 32"
        using suc wp "1.prems"(3) b32 by simp_all
      then have "(of_nat i :: u32) \<noteq> snd s"
        using of_nat_neq32 by blast
      then show "GetVectorPtr (batch_selection_vector (fst ?s')) (of_nat i) = f i"
        using "1.prems"(4) i suc by (simp add: SetValidity_def SetValue_def)
    qed
    have step: "iterate_loop ?cb n pos s = iterate_loop ?cb n (pos + 1) ?s'"
      using True by (subst iterate_loop.simps) (simp add: tid)
    have range: "[unat pos..<unat n] = unat pos # [unat (pos + 1)..<unat n]"
      using lt suc by (simp add: upt_conv_Cons)
    from "1.hyps" [OF True, unfolded tid, OF f' w' le' rest]
    show ?thesis
      unfolding step range by (cases "V ?tid") simp_all
  qed
qed

theorem non_simd_pass_sel_list:
  "sel_list (non_simd_pass p a b v) = filter (\<lambda>tid. Reify (DeriveValue p tid)) (sel_list v)"
proof -
  let ?V = "\<lambda>tid. Reify (DeriveValue p tid)"
  let ?cb = "\<lambda>b pos wp. SetValidity b wp (GetTID b pos) (?V (GetTID b pos))"
  let ?b0 = "\<lparr>batch_tid_start = a, batch_tid_end = b, batch_selection_vector = v,
              batch_filtered = True\<rparr>"
  let ?f = "\<lambda>i. GetVectorPtr v (of_nat i)"
  obtain b1 wp1 where r: "iterate_loop ?cb (GetNumElements v) 0 (?b0, 0) = (b1, wp1)"
    by (cases "iterate_loop ?cb (GetNumElements v) 0 (?b0, 0)")
  have "written (iterate_loop ?cb (GetNumElements v) 0 (?b0, 0))
          ([] @ filter ?V (map ?f [unat (0 :: u32)..<unat (GetNumElements v)]))"
    by (rule iterate_loop_written) (simp_all add: written_empty)
  then have w: "written (b1, wp1) (filter ?V (sel_list v))"
    unfolding r by (simp add: sel_list_def buf_take_def)
  have "non_simd_pass p a b v = batch_selection_vector (UpdateWritePosition b1 wp1)"
    using r by (simp add: non_simd_pass_def Iterate_def Let_def GetNumValidRows_def)
  then show ?thesis
    using written_sel_list [OF w] by simp
qed

subsection \<open>The visibility filter\<close>

lemma write_entries_nth:
  assumes "unat pos = k" and "k + length xs \<le> 2 ^ 32"
  shows "(\<forall>i < length xs. write_entries buf pos xs (of_nat (k + i)) = xs ! i) \<and>
         (\<forall>j < k. write_entries buf pos xs (of_nat j) = buf (of_nat j))"
  using assms
proof (induction xs arbitrary: buf pos k)
  case Nil
  then show ?case by simp
next
  case (Cons x xs)
  have k32: "k < 2 ^ 32" using Cons.prems(2) by simp
  have pos: "(of_nat k :: u32) = pos" using Cons.prems(1) by auto
  have below: "\<And>j. j < k \<Longrightarrow> (of_nat j :: u32) \<noteq> pos"
  proof -
    fix j assume "j < k"
    then have "j < 2 ^ 32" and "j \<noteq> unat pos"
      using k32 Cons.prems(1) by simp_all
    then show "(of_nat j :: u32) \<noteq> pos"
      by (rule of_nat_neq32)
  qed
  show ?case
  proof (cases xs)
    case Nil
    then show ?thesis using pos below by simp
  next
    case (Cons y ys)
    then have "k + 1 < 2 ^ 32" using Cons.prems(2) by simp
    then have suc: "unat (pos + 1) = Suc k"
      using unat_Suc32 [of pos] Cons.prems(1) by simp
    have le: "Suc k + length xs \<le> 2 ^ 32" using Cons.prems(2) by simp
    from Cons.IH [OF suc le, of "buf(pos := x)"]
    have ih1: "\<And>i. i < length xs \<Longrightarrow> write_entries (buf(pos := x)) (pos + 1) xs (of_nat (Suc k + i)) = xs ! i"
      and ih2: "\<And>j. j < Suc k \<Longrightarrow> write_entries (buf(pos := x)) (pos + 1) xs (of_nat j) = (buf(pos := x)) (of_nat j)"
      by blast+
    show ?thesis
    proof (intro conjI allI impI)
      fix i assume i: "i < length (x # xs)"
      show "write_entries buf pos (x # xs) (of_nat (k + i)) = (x # xs) ! i"
      proof (cases i)
        case 0
        then show ?thesis using ih2 [of k] pos by simp
      next
        case (Suc i')
        then show ?thesis using ih1 [of i'] i by simp
      qed
    next
      fix j assume j: "j < k"
      then show "write_entries buf pos (x # xs) (of_nat j) = buf (of_nat j)"
        using ih2 [of j] below [of j] by simp
    qed
  qed
qed

lemma write_entries_take:
  assumes "length xs \<le> 2 ^ 32"
  shows "map (\<lambda>i. write_entries buf 0 xs (of_nat i)) [0..<length xs] = xs"
proof (rule nth_equalityI)
  show "length (map (\<lambda>i. write_entries buf 0 xs (of_nat i)) [0..<length xs]) = length xs"
    by simp
next
  fix i assume "i < length (map (\<lambda>i. write_entries buf 0 xs (of_nat i)) [0..<length xs])"
  then have i: "i < length xs"
    by simp
  have "unat (0 :: u32) = 0" and "0 + length xs \<le> (2 :: nat) ^ 32"
    using assms by simp_all
  from write_entries_nth [OF this, of buf]
  have "write_entries buf 0 xs (of_nat (0 + i)) = xs ! i"
    using i by blast
  then show "map (\<lambda>i. write_entries buf 0 xs (of_nat i)) [0..<length xs] ! i = xs ! i"
    using i by simp
qed

lemma candidates_length: "length (candidates a b buf n) < 2 ^ 32"
  using unat_lt32 [of "b - a"] unat_lt32 [of n] by (simp add: candidates_def row_range_def)

theorem FilterRowsByVisibility_sel_list:
  "sel_list (selection_vector (FilterRowsByVisibility rt a b st)) =
     filter (visible rt)
       (candidates a b (GetVectorPtr (selection_vector st)) (GetNumElements (selection_vector st)))"
proof -
  let ?c = "candidates a b (GetVectorPtr (selection_vector st)) (GetNumElements (selection_vector st))"
  let ?s = "filter (visible rt) ?c"
  have "length ?s \<le> length ?c" by simp
  then have len: "length ?s < 2 ^ 32"
    using candidates_length [of a b "GetVectorPtr (selection_vector st)" "GetNumElements (selection_vector st)"]
    by linarith
  then have u: "unat (of_nat (length ?s) :: u32) = length ?s"
    by (rule unat_of_nat32)
  have t: "map (\<lambda>i. write_entries (GetVectorPtr (selection_vector st)) 0 ?s (of_nat i)) [0..<length ?s] = ?s"
    using len by (intro write_entries_take) simp
  show ?thesis
    by (simp add: FilterRowsByVisibility_def PerformVectorizedRead_def Let_def sel_list_def
        buf_take_def SetNumElements_def u t)
qed

lemma candidates_sel_list:
  "n \<noteq> - 1 \<Longrightarrow> candidates a b (GetVectorPtr v) n = buf_take v (unat n)"
  by (simp add: candidates_def buf_take_def)

subsection \<open>The predicate filter as a whole\<close>

lemma comp_type_switch_compare: "comp_type (switch_compare t l r) = comp_val_type t"
  by (cases t) (simp_all add: comp_val_type_def switch_compare_def Compare_def default_CompVal_def)

lemma comp_val_type_Boolean: "(comp_val_type t = Boolean) = (comparison_of t \<noteq> None)"
  by (cases t) (simp_all add: comp_val_type_def switch_compare_def Compare_def default_CompVal_def)

lemma asserts_hold_comparisons:
  assumes "asserts_hold ps r"
  shows "list_all is_comparison ps"
proof -
  have "is_comparison = (\<lambda>p. comp_val_type (GetExpressionType p) = Boolean)"
    by (rule ext) (simp add: is_comparison_def comp_val_type_Boolean)
  then show ?thesis
    using assms by (simp add: asserts_hold_def)
qed

lemma FilterRowsByPredicate_null:
  "GetPredicate plan = None \<Longrightarrow>
     FilterRowsByPredicate rt plan a b st = Inl NullPointerDereference"
  by (simp add: FilterRowsByPredicate_def)

lemma FilterRowsByPredicate_Inl:
  "GetPredicate plan \<noteq> None \<Longrightarrow>
   \<not> asserts_hold (GetSIMDPredicates plan) (residual_predicate plan) \<Longrightarrow>
     FilterRowsByPredicate rt plan a b st = Inl AssertionFailure"
  by (cases "GetPredicate plan") (simp_all add: FilterRowsByPredicate_def Let_def)

lemma FilterRowsByPredicate_Inr:
  assumes "GetPredicate plan \<noteq> None"
    and "asserts_hold (GetSIMDPredicates plan) (residual_predicate plan)"
  shows "FilterRowsByPredicate rt plan a b st =
    Inr (st\<lparr>selection_vector :=
             (case residual_predicate plan of
                None \<Rightarrow> simd_pass rt (GetSIMDPredicates plan) a b (selection_vector st)
              | Some p \<Rightarrow> non_simd_pass p a b (simd_pass rt (GetSIMDPredicates plan) a b (selection_vector st))),
           calls := calls st @ [Call_GetClockStart, Call_GetClockPause]\<rparr>)"
  using assms
  by (cases "residual_predicate plan"; cases "GetPredicate plan")
    (simp_all add: FilterRowsByPredicate_def Let_def)

lemma simd_pass_no_predicates:
  "sel_list (simd_pass rt [] a b v) = row_range a (unat (b - a))"
proof -
  have "sel_list (simd_pass rt [] a b v) = filter (simd_valid rt [] a b) (row_range a (unat (b - a)))"
    by (rule simd_pass_sel_list) simp
  then show ?thesis by (simp add: simd_valid_def)
qed

subsection \<open>The example range\<close>

lemma Reify_iff: "Reify v = (v = Some True)"
  by (cases v) (simp_all add: Reify_def)

lemma upt_40: "[0..<40] = [0,1,2,3,4,5,6,7,8,9,10,11,12,13,14,15,16,17,18,19,20,21,22,23,24,25,26,27,28,29,30,31,32,33,34,35,36,37,38,39]"
  by (simp add: upt_rec)

lemma row_range_0_40:
  "row_range 0 (unat (40 - 0 :: u32)) =
     [0,1,2,3,4,5,6,7,8,9,10,11,12,13,14,15,16,17,18,19,20,21,22,23,24,25,26,27,28,29,30,31,
      32,33,34,35,36,37,38,39]"
  by (simp add: row_range_def upt_40)

lemma align_size_0_40: "align_size_of 0 40 = 32"
  by (simp add: align_size_of_def N_def)

lemma greater_than_5_is_comparison: "list_all is_comparison [greater_than_5]"
  by (simp add: is_comparison_def greater_than_5_def)

lemma lane_greater_than_5:
  "lane_row_valid example_rt greater_than_5 tid = (tid < 8 \<or> (32 \<le> tid \<and> tid < 34))"
  by (simp add: lane_row_valid_def greater_than_5_def operand_value_def lane_is_null_def
      col_a_def example_rt_def)

lemma scalar_greater_than_5:
  "scalar_row_valid example_rt greater_than_5 tid = (tid < 8 \<or> (32 \<le> tid \<and> tid < 34))"
  by (simp add: scalar_row_valid_def DeriveValue_cmp_def greater_than_5_def operand_value_def
      operand_is_null_def col_a_def example_rt_def Reify_def)

lemma simd_valid_greater_than_5:
  "simd_valid example_rt [greater_than_5] 0 40 tid = (tid < 8 \<or> (32 \<le> tid \<and> tid < 34))"
  by (simp add: simd_valid_def lane_greater_than_5 scalar_greater_than_5)

lemma scenario_A:
  "sel_list (simd_pass example_rt [greater_than_5] 0 40 v) = [0, 1, 2, 3, 4, 5, 6, 7, 32, 33]"
  unfolding simd_pass_sel_list [OF greater_than_5_is_comparison] row_range_0_40
  by (simp add: simd_valid_greater_than_5)

lemma removed_iff: "(\<not> (v = Some False \<or> v = None)) = (v = Some True)"
  by (cases v) auto

subsection \<open>The filters in sequence\<close>

lemma length_sel_list: "length (sel_list v) = unat (GetNumElements v)"
  by (simp add: sel_list_def buf_take_def)

lemma filter_same_length:
  assumes "length (filter Q xs) = length xs"
  shows "filter Q xs = xs"
proof -
  have "\<forall>x\<in>set xs. Q x"
  proof
    fix x assume x: "x \<in> set xs"
    show "Q x"
    proof (rule ccontr)
      assume "\<not> Q x"
      with x have "length (filter Q xs) < length xs"
        by (rule length_filter_less)
      with assms show False by simp
    qed
  qed
  then show ?thesis by (simp only: filter_id_conv)
qed

lemma candidates_after_filter:
  assumes sel: "sel_list v = filter Q (row_range a (unat (b - a)))"
  shows "candidates a b (GetVectorPtr v) (GetNumElements v) = sel_list v"
proof (cases "GetNumElements v = - 1")
  case False
  then show ?thesis
    by (simp add: candidates_sel_list sel_list_def)
next
  case True
  have n: "length (row_range a (unat (b - a))) = unat (b - a)"
    by (simp add: row_range_def)
  have "unat (GetNumElements v) = 2 ^ 32 - 1"
    unfolding True by (simp add: unsigned_minus_1_eq_mask mask_eq_exp_minus_1)
  then have big: "length (filter Q (row_range a (unat (b - a)))) = 2 ^ 32 - 1"
    using length_sel_list [of v] sel by simp
  have "length (filter Q (row_range a (unat (b - a)))) \<le> unat (b - a)"
    using length_filter_le [of Q "row_range a (unat (b - a))"] n by simp
  moreover have "unat (b - a) \<le> 2 ^ 32 - 1"
    using unat_lt32 [of "b - a"] by simp
  ultimately have "length (filter Q (row_range a (unat (b - a)))) = length (row_range a (unat (b - a)))"
    using big n by linarith
  then have "filter Q (row_range a (unat (b - a))) = row_range a (unat (b - a))"
    by (rule filter_same_length)
  then show ?thesis
    using True sel by (simp add: candidates_def)
qed

lemma FilterRowsByPredicate_InrD:
  assumes "FilterRowsByPredicate rt plan a b st = Inr st1"
  shows "GetPredicate plan \<noteq> None"
    and "asserts_hold (GetSIMDPredicates plan) (residual_predicate plan)"
proof -
  show "GetPredicate plan \<noteq> None"
  proof
    assume "GetPredicate plan = None"
    then have "FilterRowsByPredicate rt plan a b st = Inl NullPointerDereference"
      by (rule FilterRowsByPredicate_null)
    with assms show False by simp
  qed
  then show "asserts_hold (GetSIMDPredicates plan) (residual_predicate plan)"
    using assms FilterRowsByPredicate_Inl [of plan rt a b st] by auto
qed

lemma predicate_filter_sel_list:
  assumes run: "FilterRowsByPredicate rt plan a b st = Inr st1"
  shows "sel_list (selection_vector st1) =
           filter (predicate_valid rt plan a b) (row_range a (unat (b - a)))"
proof -
  note pred = FilterRowsByPredicate_InrD(1) [OF run]
  note ok = FilterRowsByPredicate_InrD(2) [OF run]
  have ps: "list_all is_comparison (GetSIMDPredicates plan)"
    by (rule asserts_hold_comparisons [OF ok])
  have s: "sel_list (simd_pass rt (GetSIMDPredicates plan) a b (selection_vector st)) =
      filter (simd_valid rt (GetSIMDPredicates plan) a b) (row_range a (unat (b - a)))"
    by (rule simd_pass_sel_list [OF ps])
  have st1: "selection_vector st1 =
      (case residual_predicate plan of
         None \<Rightarrow> simd_pass rt (GetSIMDPredicates plan) a b (selection_vector st)
       | Some p \<Rightarrow> non_simd_pass p a b (simd_pass rt (GetSIMDPredicates plan) a b (selection_vector st)))"
    using run unfolding FilterRowsByPredicate_Inr [OF pred ok] by auto
  show ?thesis
  proof (cases "residual_predicate plan")
    case None
    have "predicate_valid rt plan a b = simd_valid rt (GetSIMDPredicates plan) a b"
      by (rule ext) (simp add: predicate_valid_def None)
    then show ?thesis
      unfolding st1 using s by (simp add: None)
  next
    case (Some p)
    have "predicate_valid rt plan a b =
        (\<lambda>tid. simd_valid rt (GetSIMDPredicates plan) a b tid \<and> Reify (DeriveValue p tid))"
      by (rule ext) (simp add: predicate_valid_def Some)
    then show ?thesis
      unfolding st1 using s by (simp add: Some non_simd_pass_sel_list)
  qed
qed

lemma visibility_after_predicate:
  assumes run: "FilterRowsByPredicate rt plan a b st = Inr st1"
  shows "sel_list (selection_vector (FilterRowsByVisibility rt a b st1)) =
           filter (visible rt) (sel_list (selection_vector st1))"
  unfolding FilterRowsByVisibility_sel_list
  using candidates_after_filter [OF predicate_filter_sel_list [OF run]] by simp

lemma unat_add32: "unat (a :: u32) + i < 2 ^ 32 \<Longrightarrow> unat (a + of_nat i) = unat a + i"
proof -
  assume b: "unat a + i < 2 ^ 32"
  then have "i < 2 ^ 32" by simp
  then have ui: "unat (of_nat i :: u32) = i" by (rule unat_of_nat32)
  then have "unat a + unat (of_nat i :: u32) < 2 ^ LENGTH(32)"
    using b by simp
  then have "unat (a + of_nat i) = unat a + unat (of_nat i :: u32)"
    by (simp only: unat_add_lem)
  then show ?thesis using ui by simp
qed

lemma row_range_sorted:
  assumes "unat a + n \<le> 2 ^ 32"
  shows "sorted_wrt (<) (row_range a n)"
proof -
  have "sorted_wrt (\<lambda>i j. a + of_nat i < a + of_nat j) [0..<n]"
  proof (rule sorted_wrt_mono_rel [where P = "(<)"])
    fix i j assume "i \<in> set [0..<n]" and "j \<in> set [0..<n]" and "i < j"
    then have "unat a + i < 2 ^ 32" and "unat a + j < 2 ^ 32"
      using assms by simp_all
    then have "unat (a + of_nat i) = unat a + i" and "unat (a + of_nat j) = unat a + j"
      by (simp_all only: unat_add32)
    then show "a + of_nat i < a + of_nat j"
      using \<open>i < j\<close> by (simp add: word_less_nat_alt)
  next
    show "sorted_wrt (<) [0..<n]" by simp
  qed
  then show ?thesis
    by (simp add: row_range_def sorted_wrt_map)
qed

lemma chunk_no_wrap:
  assumes "(a :: u32) \<le> b"
  shows "unat a + unat (b - a) \<le> 2 ^ 32"
proof -
  have "unat (b - a) = unat b - unat a"
    using assms by (rule unat_sub)
  moreover have "unat a \<le> unat b"
    using assms by (simp add: word_le_nat_alt)
  ultimately show ?thesis
    using unat_lt32 [of b] by simp
qed

lemma row_range_0_16:
  "row_range 0 (unat (16 - 0 :: u32)) = [0,1,2,3,4,5,6,7,8,9,10,11,12,13,14,15]"
  by (simp add: row_range_def upt_rec)

lemma visible_0_16:
  "filter (visible example_rt) [0,1,2,3,4,5,6,7,8,9,10,11,12,13,14,15] =
     [0,1,2,4,5,6,8,9,10,11,13,14,15]"
  by (simp add: example_rt_def)

lemma simd_plan_fields:
  "GetPredicate simd_plan \<noteq> None"
  "GetSIMDPredicates simd_plan = [greater_than_5]"
  "GetNonSIMDPredicate simd_plan = Some residual_example"
  "residual_predicate simd_plan = Some residual_example"
  by (simp_all add: simd_plan_def residual_predicate_def)

lemma simd_plan_asserts:
  "asserts_hold (GetSIMDPredicates simd_plan) (residual_predicate simd_plan)"
  unfolding simd_plan_fields
  by (simp add: asserts_hold_def comp_val_type_Boolean DeriveValue_cmp_type_def
      greater_than_5_def residual_example_def)

lemma predicate_valid_simd_plan:
  "predicate_valid example_rt simd_plan 0 40 tid =
     ((tid < 8 \<or> (32 \<le> tid \<and> tid < 34)) \<and> tid \<noteq> 32 \<and> tid \<noteq> 4)"
  unfolding predicate_valid_def simd_plan_fields
  by (simp add: simd_valid_greater_than_5 residual_example_def Reify_def)

lemma simd_plan_filtered:
  assumes "FilterRowsByPredicate example_rt simd_plan 0 40 st = Inr st1"
  shows "sel_list (selection_vector st1) = [0, 1, 2, 3, 5, 6, 7, 33]"
  unfolding predicate_filter_sel_list [OF assms] row_range_0_40
  by (simp add: predicate_valid_simd_plan)

lemma count_of_length:
  assumes "sel_list v = xs" and "length xs = n"
  shows "GetNumElements v = of_nat n"
proof -
  have "unat (GetNumElements v) = n"
    using assms length_sel_list [of v] by simp
  then have "of_nat (unat (GetNumElements v)) = (of_nat n :: u32)"
    by simp
  then show ?thesis by simp
qed

lemma sel_list_Consume:
  "selection_vector (st\<lparr>calls := cs\<rparr>) = selection_vector st"
  by simp

lemma filter_stage:
  assumes "sorted_wrt (<) xs" and "subseq xs rows"
  shows "sorted_wrt (<) (filter Q xs) \<and> subseq (filter Q xs) xs \<and>
         subseq (filter Q xs) rows \<and> length (filter Q xs) \<le> length xs"
proof -
  have "subseq (filter Q xs) xs" by simp
  then have "subseq (filter Q xs) rows"
    using assms(2) by (rule subseq_order.trans)
  then show ?thesis
    using assms(1) by (simp add: sorted_wrt_filter)
qed

lemma ProcessTuples_selection:
  assumes f: "FilterRowsByPredicate rt plan a b st = Inr st1"
    and p: "ProcessTuples rt plan a b st = Inr st'"
  shows "sel_list (selection_vector st') = filter (visible rt) (sel_list (selection_vector st1))"
proof -
  have pred: "GetPredicate plan \<noteq> None"
    by (rule FilterRowsByPredicate_InrD(1) [OF f])
  have "selection_vector st' = selection_vector (FilterRowsByVisibility rt a b st1)"
    using p pred by (auto simp: ProcessTuples_def Let_def f)
  then show ?thesis
    by (simp add: visibility_after_predicate [OF f])
qed

lemma sorted_example: "sorted_wrt (<) [0, 1, 2, 5, 6, 33 :: u32]"
  by simp

subsection \<open>The assertions\<close>

lemma asserts_hold_iff:
  "asserts_hold ps res =
     ((\<forall>p \<in> set ps.
         comp_type (switch_compare (GetExpressionType p) val_lhs val_rhs) = Boolean \<and>
         DeriveValue_cmp_type p = Boolean) \<and>
      (\<forall>p. res = Some p \<longrightarrow> GetValueType p = Boolean))"
  by (cases res) (auto simp: asserts_hold_def comp_type_switch_compare list_all_iff)

subsection \<open>The name\<close>

lemma is_prefix_append: "is_prefix xs (xs @ ys)"
  by (induction xs) simp_all

lemma contains_prefix: "is_prefix xs ys \<Longrightarrow> contains ys xs"
  by (cases ys; cases xs) simp_all

lemma contains_append_left: "contains ys xs \<Longrightarrow> contains (zs @ ys) xs"
  by (induction zs) simp_all

lemma contains_middle: "contains (zs @ xs @ ys) xs"
  by (rule contains_append_left, rule contains_prefix, rule is_prefix_append)

lemma to_string_32: "to_string N = ''32''"
  by (simp add: N_def to_string.simps digit_char_def)

lemma to_string_1024_nat: "to_string 1024 = ''1024''"
  by code_simp

lemma to_string_1024: "to_string (unat (1024 :: u32)) = ''1024''"
proof -
  have "unat (1024 :: u32) = 1024"
    by simp
  then show ?thesis
    by (simp only: to_string_1024_nat)
qed

lemma GetName_simd_plan_1024:
  "GetName 1024 simd_plan = ''Scan('' @ [CHR 0x27] @ ''t'' @ [CHR 0x27] @ '', 1024)''"
  unfolding GetName_def Let_def to_string_1024 by (simp add: simd_plan_def)

lemma GetName_t32_plan:
  "GetName 1024 t32_plan = ''Scan('' @ [CHR 0x27] @ ''t32'' @ [CHR 0x27] @ '')''"
  by (simp add: GetName_def t32_plan_def scan_all_plan_def)

subsection \<open>A constant that is NULL\<close>

lemma upt_32: "[0..<32] = [0,1,2,3,4,5,6,7,8,9,10,11,12,13,14,15,16,17,18,19,20,21,22,23,24,25,26,27,28,29,30,31]"
  by (simp add: upt_rec)

lemma row_range_0_32:
  "row_range 0 (unat (32 - 0 :: u32)) =
     [0,1,2,3,4,5,6,7,8,9,10,11,12,13,14,15,16,17,18,19,20,21,22,23,24,25,26,27,28,29,30,31]"
  by (simp add: row_range_def upt_32)

lemma row_range_0_N:
  "row_range 0 N =
     [0,1,2,3,4,5,6,7,8,9,10,11,12,13,14,15,16,17,18,19,20,21,22,23,24,25,26,27,28,29,30,31]"
  by (simp add: row_range_def N_def upt_32)

lemma align_size_0_32: "align_size_of 0 32 = 32"
  by (simp add: align_size_of_def N_def)

lemma greater_than_null_is_comparison: "list_all is_comparison [greater_than_null]"
  by (simp add: is_comparison_def greater_than_null_def)

lemma lane_greater_than_null: "lane_row_valid example_rt greater_than_null tid"
  by (simp add: lane_row_valid_def greater_than_null_def operand_value_def lane_is_null_def
      col_a_def example_rt_def)

lemma scalar_greater_than_null: "\<not> scalar_row_valid example_rt greater_than_null tid"
  by (simp add: scalar_row_valid_def DeriveValue_cmp_def greater_than_null_def
      operand_is_null_def Reify_def)

lemma simd_valid_greater_than_null_32:
  "simd_valid example_rt [greater_than_null] 0 32 tid = (tid < 32)"
  by (simp add: simd_valid_def align_size_0_32 lane_greater_than_null scalar_greater_than_null)

lemma simd_valid_greater_than_null_40:
  "simd_valid example_rt [greater_than_null] 0 40 tid = (tid < 32)"
  by (simp add: simd_valid_def align_size_0_40 lane_greater_than_null scalar_greater_than_null)

lemma replicate_32: "replicate 32 x = [x, x, x, x, x, x, x, x, x, x, x, x, x, x, x, x, x, x, x, x, x, x, x, x, x, x, x, x, x, x, x, x]"
  by (simp add: eval_nat_numeral)

lemma simd_mask_greater_than_null:
  "simd_mask example_rt [greater_than_null] 0 = replicate N True"
  by (simp add: simd_mask_def simd_step_def materialize_def CreateMaskedLoad_def
      greater_than_null_def col_a_def example_rt_def switch_compare_def Compare_def
      Reify_lanes_def null_or_def N_def upt_32 replicate_32)

subsection \<open>Operands that are not NULL constants\<close>

lemma operand_null_lane:
  "\<not> is_null_constant e \<Longrightarrow> lane_is_null rt e tid = operand_is_null rt e tid"
  by (cases e) (simp_all add: is_null_constant_def lane_is_null_def operand_is_null_def)

lemma lane_row_valid_scalar:
  assumes "\<not> is_null_constant (GetChild0 p)" and "\<not> is_null_constant (GetChild1 p)"
  shows "lane_row_valid rt p tid = scalar_row_valid rt p tid"
proof (cases "comparison_of (GetExpressionType p)")
  case None
  then show ?thesis
    by (simp add: lane_row_valid_def scalar_row_valid_def DeriveValue_cmp_def Reify_def)
next
  case (Some cmp)
  then show ?thesis
    using assms
    by (auto simp: lane_row_valid_def scalar_row_valid_def DeriveValue_cmp_def Reify_def
        operand_null_lane)
qed

lemma simd_valid_scalar:
  assumes "list_all (\<lambda>p. \<not> is_null_constant (GetChild0 p) \<and> \<not> is_null_constant (GetChild1 p)) ps"
  shows "simd_valid rt ps a b tid = list_all (\<lambda>p. scalar_row_valid rt p tid) ps"
proof -
  have "list_all (\<lambda>p. lane_row_valid rt p tid) ps = list_all (\<lambda>p. scalar_row_valid rt p tid) ps"
    using assms by (induction ps) (simp_all add: lane_row_valid_scalar)
  then show ?thesis
    by (simp add: simd_valid_def)
qed

lemma null_operand_not_valid:
  assumes "operand_is_null rt (GetChild0 p) tid \<or> operand_is_null rt (GetChild1 p) tid"
  shows "\<not> scalar_row_valid rt p tid"
  using assms
  by (cases "comparison_of (GetExpressionType p)")
    (auto simp: scalar_row_valid_def DeriveValue_cmp_def Reify_def)

lemma less_than_5_is_comparison: "list_all is_comparison [less_than_5]"
  by (simp add: is_comparison_def less_than_5_def)

section \<open>The claims\<close>

text \<open>
  C10. When the plan has no SIMD predicates and no non-SIMD predicate but has a
  predicate, \<open>FilterRowsByPredicate\<close> takes the whole predicate as the non-SIMD one:
  the lane mask stays all ones, the first part admits every row of the range into the
  selection vector, and the scalar pass then keeps the rows on which the predicate
  reifies to true.
\<close>

theorem fallback_to_whole_predicate:
  assumes "GetPredicate plan = Some p" and "GetSIMDPredicates plan = []"
    and "GetNonSIMDPredicate plan = None" and "GetValueType p = Boolean"
  shows "residual_predicate plan = Some p \<and>
         simd_mask rt (GetSIMDPredicates plan) first_tid = replicate N True \<and>
         sel_list (simd_pass rt (GetSIMDPredicates plan) a b (selection_vector st)) =
           row_range a (unat (b - a)) \<and>
         (\<exists>st'. FilterRowsByPredicate rt plan a b st = Inr st' \<and>
            selection_vector st' =
              non_simd_pass p a b (simd_pass rt (GetSIMDPredicates plan) a b (selection_vector st)) \<and>
            sel_list (selection_vector st') =
              filter (\<lambda>tid. Reify (DeriveValue p tid)) (row_range a (unat (b - a))))"
proof -
  have res: "residual_predicate plan = Some p"
    using assms by (simp add: residual_predicate_def)
  have ok: "asserts_hold (GetSIMDPredicates plan) (residual_predicate plan)"
    using assms by (simp add: res asserts_hold_def)
  have pn: "GetPredicate plan \<noteq> None"
    using assms(1) by simp
  have all: "sel_list (simd_pass rt [] a b (selection_vector st)) = row_range a (unat (b - a))"
    by (rule simd_pass_no_predicates)
  show ?thesis
    using assms(2) res all
    by (simp add: FilterRowsByPredicate_Inr [OF pn ok] simd_mask_def non_simd_pass_sel_list)
qed

lemma row_range_0_4: "row_range 0 (unat (4 - 0 :: u32)) = [0, 1, 2, 3]"
  by (simp add: row_range_def upt_rec)

theorem fallback_to_whole_predicate_witness:
  "residual_predicate fallback_plan = Some whole_predicate \<and>
   sel_list (simd_pass example_rt (GetSIMDPredicates fallback_plan) 0 4 (selection_vector example_state)) =
     [0, 1, 2, 3] \<and>
   (\<exists>st'. FilterRowsByPredicate example_rt fallback_plan 0 4 example_state = Inr st' \<and>
      sel_list (selection_vector st') = [0, 3])"
proof -
  have h: "GetPredicate fallback_plan = Some whole_predicate" "GetSIMDPredicates fallback_plan = []"
    "GetNonSIMDPredicate fallback_plan = None" "GetValueType whole_predicate = Boolean"
    by (simp_all add: fallback_plan_def whole_predicate_def)
  have kept: "filter (\<lambda>tid. Reify (DeriveValue whole_predicate tid)) [0, 1, 2, 3] = [0, 3]"
    by (simp add: whole_predicate_def Reify_def)
  from fallback_to_whole_predicate [OF h, of example_rt 0 0 4 example_state]
  show ?thesis
    unfolding row_range_0_4 kept by blast
qed

text \<open>
  C5. The first part of the predicate filter splits the range \<open>[tid_start, tid_end)\<close>:
  the aligned batch has \<open>N * ((tid_end - tid_start) div N)\<close> rows with \<open>N = 32\<close>, on
  which the lane loop decides, and fewer than \<open>N\<close> rows are left, on which the
  post-batch loop decides going from the aligned size up to the size of the range; the
  selection vector holds the rows kept from the first followed by the rows kept from
  the second, each in the order of the range.
\<close>

theorem range_partition:
  assumes ps: "list_all is_comparison ps"
  shows "N = 32 \<and>
     unat (align_size_of a b) = N * (unat (b - a) div N) \<and>
     unat (b - a) - unat (align_size_of a b) < N \<and>
     GetNumValidRows \<lparr>batch_tid_start = a, batch_tid_end = a + align_size_of a b,
        batch_selection_vector = v, batch_filtered = False\<rparr> = align_size_of a b \<and>
     sel_list (simd_pass rt ps a b v) =
       filter (\<lambda>tid. list_all (\<lambda>p. lane_row_valid rt p tid) ps)
         (row_range a (N * (unat (b - a) div N))) @
       filter (scalar_mask rt ps)
         (row_range (a + align_size_of a b) (unat (b - a) - N * (unat (b - a) div N)))"
proof -
  have rest: "unat (b - a) - N * (unat (b - a) div N) < N"
  proof -
    have "unat (b - a) - N * (unat (b - a) div N) = unat (b - a) mod N"
      by (simp add: minus_mult_div_eq_mod)
    then show ?thesis using N_pos by simp
  qed
  have sel: "sel_list (simd_pass rt ps a b v) =
      filter (simd_valid rt ps a b) (row_range a (unat (b - a)))"
    by (rule simd_pass_sel_list [OF ps])
  show ?thesis
    using rest
    by (simp add: sel simd_valid_filter unat_align_size GetNumValidRows_def) (simp add: N_def)
qed

theorem range_partition_witness:
  "list_all is_comparison [greater_than_5] \<and>
   unat (align_size_of 0 40) = 32 \<and>
   unat (40 - 0 :: u32) - unat (align_size_of 0 40) < N \<and>
   sel_list (simd_pass example_rt [greater_than_5] 0 40 example_vector) =
     [0, 1, 2, 3, 4, 5, 6, 7, 32, 33]"
proof -
  note r = range_partition [OF greater_than_5_is_comparison, of 0 40 example_vector example_rt]
  have al: "unat (align_size_of 0 40) = N * (unat (40 - 0 :: u32) div N)"
    by (rule r [THEN conjunct2, THEN conjunct1])
  have rest: "unat (40 - 0 :: u32) - unat (align_size_of 0 40) < N"
    by (rule r [THEN conjunct2, THEN conjunct2, THEN conjunct1])
  have "unat (align_size_of 0 40) = 32"
    unfolding al by (simp add: N_def)
  then show ?thesis
    using rest greater_than_5_is_comparison scenario_A [of example_vector] by simp
qed

text \<open>
  C6. On a plan with a predicate (the guard of line 160, under which alone the filter
  is called) and with a non-SIMD predicate, the predicate filter ends with a pass over
  the selection vector that the first part left: the result is that vector without the
  rows on which the non-SIMD predicate is false or NULL, the other rows staying in
  their order.
\<close>

theorem residual_pass_filters_narrowed_vector:
  assumes pred: "GetPredicate plan \<noteq> None"
    and p: "GetNonSIMDPredicate plan = Some p"
    and ok: "asserts_hold (GetSIMDPredicates plan) (residual_predicate plan)"
  shows "residual_predicate plan = Some p \<and>
     (\<exists>st'. FilterRowsByPredicate rt plan a b st = Inr st' \<and>
        selection_vector st' =
          non_simd_pass p a b (simd_pass rt (GetSIMDPredicates plan) a b (selection_vector st)) \<and>
        sel_list (selection_vector st') =
          filter (\<lambda>tid. \<not> (DeriveValue p tid = Some False \<or> DeriveValue p tid = None))
            (sel_list (simd_pass rt (GetSIMDPredicates plan) a b (selection_vector st))))"
proof -
  have res: "residual_predicate plan = Some p"
    using p by (simp add: residual_predicate_def)
  have keep: "(\<lambda>tid. Reify (DeriveValue p tid)) =
      (\<lambda>tid. \<not> (DeriveValue p tid = Some False \<or> DeriveValue p tid = None))"
    by (rule ext) (simp only: removed_iff Reify_iff)
  have sel: "sel_list (non_simd_pass p a b (simd_pass rt (GetSIMDPredicates plan) a b (selection_vector st))) =
      filter (\<lambda>tid. \<not> (DeriveValue p tid = Some False \<or> DeriveValue p tid = None))
        (sel_list (simd_pass rt (GetSIMDPredicates plan) a b (selection_vector st)))"
    unfolding non_simd_pass_sel_list keep by (rule refl)
  show ?thesis
    using res sel by (simp add: FilterRowsByPredicate_Inr [OF pred ok])
qed

theorem residual_pass_filters_narrowed_vector_witness:
  "GetPredicate simd_plan \<noteq> None \<and>
   GetNonSIMDPredicate simd_plan = Some residual_example \<and>
   asserts_hold (GetSIMDPredicates simd_plan) (residual_predicate simd_plan) \<and>
   sel_list (simd_pass example_rt (GetSIMDPredicates simd_plan) 0 40 (selection_vector example_state)) =
     [0, 1, 2, 3, 4, 5, 6, 7, 32, 33] \<and>
   (\<exists>st'. FilterRowsByPredicate example_rt simd_plan 0 40 example_state = Inr st' \<and>
      sel_list (selection_vector st') = [0, 1, 2, 3, 5, 6, 7, 33])"
proof -
  have pred: "GetPredicate simd_plan \<noteq> None"
    and p: "GetNonSIMDPredicate simd_plan = Some residual_example"
    and s: "GetSIMDPredicates simd_plan = [greater_than_5]"
    by (simp_all add: simd_plan_def)
  have res: "residual_predicate simd_plan = Some residual_example"
    by (simp add: residual_predicate_def simd_plan_def)
  have ok: "asserts_hold (GetSIMDPredicates simd_plan) (residual_predicate simd_plan)"
    unfolding res s
    by (simp add: asserts_hold_def comp_val_type_Boolean DeriveValue_cmp_type_def
        greater_than_5_def residual_example_def)
  have kept: "filter (\<lambda>tid. \<not> (DeriveValue residual_example tid = Some False \<or>
        DeriveValue residual_example tid = None)) [0, 1, 2, 3, 4, 5, 6, 7, 32, 33] =
      [0, 1, 2, 3, 5, 6, 7, 33 :: u32]"
    unfolding removed_iff by (simp add: residual_example_def)
  note r = residual_pass_filters_narrowed_vector [OF pred p ok, of example_rt 0 40 example_state]
  from r [THEN conjunct2]
  obtain st' where all: "FilterRowsByPredicate example_rt simd_plan 0 40 example_state = Inr st' \<and>
      selection_vector st' =
        non_simd_pass residual_example 0 40
          (simd_pass example_rt (GetSIMDPredicates simd_plan) 0 40 (selection_vector example_state)) \<and>
      sel_list (selection_vector st') =
        filter (\<lambda>tid. \<not> (DeriveValue residual_example tid = Some False \<or>
            DeriveValue residual_example tid = None))
          (sel_list (simd_pass example_rt (GetSIMDPredicates simd_plan) 0 40 (selection_vector example_state)))"
    by (rule exE)
  have run: "FilterRowsByPredicate example_rt simd_plan 0 40 example_state = Inr st'"
    by (rule all [THEN conjunct1])
  have sel: "sel_list (selection_vector st') =
      filter (\<lambda>tid. \<not> (DeriveValue residual_example tid = Some False \<or>
          DeriveValue residual_example tid = None))
        (sel_list (simd_pass example_rt (GetSIMDPredicates simd_plan) 0 40 (selection_vector example_state)))"
    by (rule all [THEN conjunct2, THEN conjunct2])
  have narrowed: "sel_list (simd_pass example_rt (GetSIMDPredicates simd_plan) 0 40
      (selection_vector example_state)) = [0, 1, 2, 3, 4, 5, 6, 7, 32, 33]"
    unfolding s by (rule scenario_A)
  have "sel_list (selection_vector st') = [0, 1, 2, 3, 5, 6, 7, 33]"
    unfolding sel narrowed by (rule kept)
  with run have "\<exists>st'. FilterRowsByPredicate example_rt simd_plan 0 40 example_state = Inr st' \<and>
      sel_list (selection_vector st') = [0, 1, 2, 3, 5, 6, 7, 33]"
    by blast
  with pred p ok narrowed show ?thesis
    by (intro conjI)
qed

text \<open>
  C9. Without a predicate \<open>ProcessTuples\<close> sets the element count of the selection
  vector to \<open>-1\<close>, \<open>FilterRowsByVisibility\<close> hands that count to
  \<open>PerformVectorizedRead\<close>, and the selection vector then holds the visible rows of the
  whole range \<open>[tid_start, tid_end)\<close>, which is pushed as one batch.
\<close>

theorem no_predicate_passes_sentinel:
  assumes "GetPredicate plan = None"
  shows "\<exists>st1 st2.
     st1 = st\<lparr>selection_vector := SetNumElements (selection_vector st) (- 1)\<rparr> \<and>
     GetNumElements (selection_vector st1) = - 1 \<and>
     st2 = FilterRowsByVisibility rt a b st1 \<and>
     calls st2 = calls st @ [Call_GetTransaction, Call_PerformVectorizedRead a b (- 1)] \<and>
     sel_list (selection_vector st2) = filter (visible rt) (row_range a (unat (b - a))) \<and>
     ProcessTuples rt plan a b st =
       Inr (st2\<lparr>calls := calls st2 @
              [Call_Consume \<lparr>batch_tid_start = a, batch_tid_end = b,
                 batch_selection_vector = selection_vector st2, batch_filtered = True\<rparr>]\<rparr>)"
proof -
  let ?st1 = "st\<lparr>selection_vector := SetNumElements (selection_vector st) (- 1)\<rparr>"
  let ?st2 = "FilterRowsByVisibility rt a b ?st1"
  have n: "GetNumElements (selection_vector ?st1) = - 1"
    by (simp add: SetNumElements_def)
  have c: "calls ?st2 = calls st @ [Call_GetTransaction, Call_PerformVectorizedRead a b (- 1)]"
    by (simp add: FilterRowsByVisibility_def Let_def SetNumElements_def split: prod.splits)
  have s: "sel_list (selection_vector ?st2) = filter (visible rt) (row_range a (unat (b - a)))"
    unfolding FilterRowsByVisibility_sel_list n by (simp add: candidates_def)
  have p: "ProcessTuples rt plan a b st =
       Inr (?st2\<lparr>calls := calls ?st2 @
              [Call_Consume \<lparr>batch_tid_start = a, batch_tid_end = b,
                 batch_selection_vector = selection_vector ?st2, batch_filtered = True\<rparr>]\<rparr>)"
    using assms by (simp add: ProcessTuples_def Let_def)
  show ?thesis
    by (rule exI [of _ ?st1], rule exI [of _ ?st2], intro conjI) (rule refl n c s p)+
qed

theorem no_predicate_passes_sentinel_witness:
  "GetPredicate scan_all_plan = None \<and>
   (\<exists>st'. ProcessTuples example_rt scan_all_plan 0 16 example_state = Inr st' \<and>
      sel_list (selection_vector st') = [0,1,2,4,5,6,8,9,10,11,13,14,15] \<and>
      take 2 (calls st') = [Call_GetTransaction, Call_PerformVectorizedRead 0 16 (- 1)] \<and>
      map is_Consume (calls st') = [False, False, True])"
proof -
  have p: "GetPredicate scan_all_plan = None"
    by (simp add: scan_all_plan_def)
  from no_predicate_passes_sentinel [OF p, of example_state example_rt 0 16]
  obtain st1 st2 where c: "calls st2 = calls example_state @
      [Call_GetTransaction, Call_PerformVectorizedRead 0 16 (- 1)]"
    and s: "sel_list (selection_vector st2) = filter (visible example_rt) (row_range 0 (unat (16 - 0 :: u32)))"
    and r: "ProcessTuples example_rt scan_all_plan 0 16 example_state =
       Inr (st2\<lparr>calls := calls st2 @
              [Call_Consume \<lparr>batch_tid_start = 0, batch_tid_end = 16,
                 batch_selection_vector = selection_vector st2, batch_filtered = True\<rparr>]\<rparr>)"
    by blast
  let ?st' = "st2\<lparr>calls := calls st2 @
              [Call_Consume \<lparr>batch_tid_start = 0, batch_tid_end = 16,
                 batch_selection_vector = selection_vector st2, batch_filtered = True\<rparr>]\<rparr>"
  have s': "sel_list (selection_vector ?st') = [0,1,2,4,5,6,8,9,10,11,13,14,15]"
    using s unfolding row_range_0_16 visible_0_16 by simp
  have h: "take 2 (calls ?st') = [Call_GetTransaction, Call_PerformVectorizedRead 0 16 (- 1)]"
    using c by (simp add: example_state_def)
  have m: "map is_Consume (calls ?st') = [False, False, True]"
    using c by (simp add: example_state_def is_Consume_def)
  have "\<exists>st'. ProcessTuples example_rt scan_all_plan 0 16 example_state = Inr st' \<and>
      sel_list (selection_vector st') = [0,1,2,4,5,6,8,9,10,11,13,14,15] \<and>
      take 2 (calls st') = [Call_GetTransaction, Call_PerformVectorizedRead 0 16 (- 1)] \<and>
      map is_Consume (calls st') = [False, False, True]"
    by (rule exI [of _ ?st'], intro conjI) (rule r s' h m)+
  with p show ?thesis
    by (rule conjI)
qed

text \<open>
  C1. On a plan with a predicate whose assertions pass, \<open>ProcessTuples\<close> runs the
  predicate filter on the range \<open>[tid_start, tid_end)\<close>, then the visibility filter on
  the state the predicate filter left, and then pushes the batch over the resulting
  selection vector: the calls it adds are the two clock calls of the predicate filter,
  the fetch of the transaction, the vectorized read with the count the predicate
  filter left, and one \<open>Consume\<close>, the last of them.
\<close>

theorem predicate_filter_then_visibility_then_one_consume:
  assumes pred: "GetPredicate plan \<noteq> None"
    and ok: "asserts_hold (GetSIMDPredicates plan) (residual_predicate plan)"
  shows "\<exists>st1 st2 batch.
     FilterRowsByPredicate rt plan tid_start tid_end st = Inr st1 \<and>
     calls st1 = calls st @ [Call_GetClockStart, Call_GetClockPause] \<and>
     st2 = FilterRowsByVisibility rt tid_start tid_end st1 \<and>
     batch = \<lparr>batch_tid_start = tid_start, batch_tid_end = tid_end,
               batch_selection_vector = selection_vector st2, batch_filtered = True\<rparr> \<and>
     ProcessTuples rt plan tid_start tid_end st = Inr (st2\<lparr>calls := calls st2 @ [Call_Consume batch]\<rparr>) \<and>
     calls st2 @ [Call_Consume batch] =
       calls st @ [Call_GetClockStart, Call_GetClockPause, Call_GetTransaction,
                   Call_PerformVectorizedRead tid_start tid_end (GetNumElements (selection_vector st1)),
                   Call_Consume batch] \<and>
     length (filter is_Consume
       [Call_GetClockStart, Call_GetClockPause, Call_GetTransaction,
        Call_PerformVectorizedRead tid_start tid_end (GetNumElements (selection_vector st1)),
        Call_Consume batch]) = 1"
proof -
  let ?v = "case residual_predicate plan of
              None \<Rightarrow> simd_pass rt (GetSIMDPredicates plan) tid_start tid_end (selection_vector st)
            | Some p \<Rightarrow> non_simd_pass p tid_start tid_end
                (simd_pass rt (GetSIMDPredicates plan) tid_start tid_end (selection_vector st))"
  let ?st1 = "st\<lparr>selection_vector := ?v, calls := calls st @ [Call_GetClockStart, Call_GetClockPause]\<rparr>"
  let ?st2 = "FilterRowsByVisibility rt tid_start tid_end ?st1"
  let ?batch = "\<lparr>batch_tid_start = tid_start, batch_tid_end = tid_end,
               batch_selection_vector = selection_vector ?st2, batch_filtered = True\<rparr>"
  have f: "FilterRowsByPredicate rt plan tid_start tid_end st = Inr ?st1"
    by (rule FilterRowsByPredicate_Inr [OF pred ok])
  have c1: "calls ?st1 = calls st @ [Call_GetClockStart, Call_GetClockPause]"
    by simp
  have c2: "calls ?st2 = calls ?st1 @
      [Call_GetTransaction,
       Call_PerformVectorizedRead tid_start tid_end (GetNumElements (selection_vector ?st1))]"
    by (simp add: FilterRowsByVisibility_def Let_def split: prod.splits)
  have p: "ProcessTuples rt plan tid_start tid_end st = Inr (?st2\<lparr>calls := calls ?st2 @ [Call_Consume ?batch]\<rparr>)"
    using pred by (simp add: ProcessTuples_def Let_def f)
  have all: "calls ?st2 @ [Call_Consume ?batch] =
       calls st @ [Call_GetClockStart, Call_GetClockPause, Call_GetTransaction,
                   Call_PerformVectorizedRead tid_start tid_end (GetNumElements (selection_vector ?st1)),
                   Call_Consume ?batch]"
    unfolding c2 c1 by simp
  have one: "length (filter is_Consume
       [Call_GetClockStart, Call_GetClockPause, Call_GetTransaction,
        Call_PerformVectorizedRead tid_start tid_end (GetNumElements (selection_vector ?st1)),
        Call_Consume ?batch]) = 1"
    by (simp add: is_Consume_def)
  show ?thesis
    by (rule exI [of _ ?st1], rule exI [of _ ?st2], rule exI [of _ ?batch], intro conjI)
      (rule f c1 refl p all one)+
qed

theorem predicate_filter_then_visibility_then_one_consume_witness:
  "GetPredicate simd_plan \<noteq> None \<and>
   asserts_hold (GetSIMDPredicates simd_plan) (residual_predicate simd_plan) \<and>
   (\<exists>st1 st'.
      FilterRowsByPredicate example_rt simd_plan 0 40 example_state = Inr st1 \<and>
      sel_list (selection_vector st1) = [0, 1, 2, 3, 5, 6, 7, 33] \<and>
      ProcessTuples example_rt simd_plan 0 40 example_state = Inr st' \<and>
      sel_list (selection_vector st') = [0, 1, 2, 5, 6, 33] \<and>
      take 4 (calls st') =
        [Call_GetClockStart, Call_GetClockPause, Call_GetTransaction,
         Call_PerformVectorizedRead 0 40 8] \<and>
      map is_Consume (calls st') = [False, False, False, False, True])"
proof -
  from predicate_filter_then_visibility_then_one_consume
    [OF simd_plan_fields(1) simd_plan_asserts, of example_rt 0 40 example_state]
  obtain st1 st2 batch where f: "FilterRowsByPredicate example_rt simd_plan 0 40 example_state = Inr st1"
    and st2: "st2 = FilterRowsByVisibility example_rt 0 40 st1"
    and p: "ProcessTuples example_rt simd_plan 0 40 example_state =
        Inr (st2\<lparr>calls := calls st2 @ [Call_Consume batch]\<rparr>)"
    and c: "calls st2 @ [Call_Consume batch] =
       calls example_state @ [Call_GetClockStart, Call_GetClockPause, Call_GetTransaction,
          Call_PerformVectorizedRead 0 40 (GetNumElements (selection_vector st1)),
          Call_Consume batch]"
    by blast
  let ?st' = "st2\<lparr>calls := calls st2 @ [Call_Consume batch]\<rparr>"
  have s1: "sel_list (selection_vector st1) = [0, 1, 2, 3, 5, 6, 7, 33]"
    by (rule simd_plan_filtered [OF f])
  have n: "GetNumElements (selection_vector st1) = 8"
    using count_of_length [OF s1, of 8] by simp
  have "sel_list (selection_vector st2) = filter (visible example_rt) (sel_list (selection_vector st1))"
    unfolding st2 by (rule visibility_after_predicate [OF f])
  then have s': "sel_list (selection_vector ?st') = [0, 1, 2, 5, 6, 33]"
    unfolding s1 by (simp add: example_rt_def)
  have cs: "calls ?st' = [Call_GetClockStart, Call_GetClockPause, Call_GetTransaction,
          Call_PerformVectorizedRead 0 40 8, Call_Consume batch]"
    using c unfolding n by (simp add: example_state_def)
  have t: "take 4 (calls ?st') =
        [Call_GetClockStart, Call_GetClockPause, Call_GetTransaction,
         Call_PerformVectorizedRead 0 40 8]"
    unfolding cs by simp
  have m: "map is_Consume (calls ?st') = [False, False, False, False, True]"
    unfolding cs by (simp add: is_Consume_def)
  have "\<exists>st1 st'.
      FilterRowsByPredicate example_rt simd_plan 0 40 example_state = Inr st1 \<and>
      sel_list (selection_vector st1) = [0, 1, 2, 3, 5, 6, 7, 33] \<and>
      ProcessTuples example_rt simd_plan 0 40 example_state = Inr st' \<and>
      sel_list (selection_vector st') = [0, 1, 2, 5, 6, 33] \<and>
      take 4 (calls st') =
        [Call_GetClockStart, Call_GetClockPause, Call_GetTransaction,
         Call_PerformVectorizedRead 0 40 8] \<and>
      map is_Consume (calls st') = [False, False, False, False, True]"
    by (rule exI [of _ st1], rule exI [of _ ?st'], intro conjI) (rule f s1 p s' t m)+
  with simd_plan_fields(1) simd_plan_asserts show ?thesis
    by (intro conjI)
qed

text \<open>
  C3. For a range with \<open>tid_start \<le> tid_end\<close>, the selection vector after each
  filtering stage is strictly ascending and a subsequence of the rows of the range,
  and no stage makes it longer: without a predicate the one stage is the visibility
  filter over the whole range; with a predicate whose assertions pass the stages are,
  in the order in which the code runs them, the first part of the predicate filter
  (lane loop and post-batch loop) over the range, the pass of the non-SIMD predicate
  over what the first part left (where there is none the vector stays as it is), and
  the visibility filter over what the predicate filter left.
\<close>

theorem filter_stages_ascending_and_narrowing:
  assumes le: "tid_start \<le> tid_end"
  shows "(GetPredicate plan = None \<longrightarrow>
           (\<exists>st'. ProcessTuples rt plan tid_start tid_end st = Inr st' \<and>
              sorted_wrt (<) (sel_list (selection_vector st')) \<and>
              subseq (sel_list (selection_vector st')) (row_range tid_start (unat (tid_end - tid_start))) \<and>
              length (sel_list (selection_vector st')) \<le> unat (tid_end - tid_start))) \<and>
         (GetPredicate plan \<noteq> None \<and>
          asserts_hold (GetSIMDPredicates plan) (residual_predicate plan) \<longrightarrow>
           (\<exists>s1 st1 st'.
              s1 = sel_list (simd_pass rt (GetSIMDPredicates plan) tid_start tid_end (selection_vector st)) \<and>
              FilterRowsByPredicate rt plan tid_start tid_end st = Inr st1 \<and>
              ProcessTuples rt plan tid_start tid_end st = Inr st' \<and>
              sorted_wrt (<) s1 \<and>
              subseq s1 (row_range tid_start (unat (tid_end - tid_start))) \<and>
              length s1 \<le> unat (tid_end - tid_start) \<and>
              sorted_wrt (<) (sel_list (selection_vector st1)) \<and>
              subseq (sel_list (selection_vector st1)) s1 \<and>
              subseq (sel_list (selection_vector st1)) (row_range tid_start (unat (tid_end - tid_start))) \<and>
              length (sel_list (selection_vector st1)) \<le> length s1 \<and>
              sorted_wrt (<) (sel_list (selection_vector st')) \<and>
              subseq (sel_list (selection_vector st')) (sel_list (selection_vector st1)) \<and>
              subseq (sel_list (selection_vector st')) (row_range tid_start (unat (tid_end - tid_start))) \<and>
              length (sel_list (selection_vector st')) \<le> length (sel_list (selection_vector st1))))"
proof (intro conjI impI)
  let ?rows = "row_range tid_start (unat (tid_end - tid_start))"
  have sorted: "sorted_wrt (<) ?rows"
    by (rule row_range_sorted [OF chunk_no_wrap [OF le]])
  have len: "length ?rows = unat (tid_end - tid_start)"
    by (simp add: row_range_def)
  {
    assume none: "GetPredicate plan = None"
    let ?st1 = "st\<lparr>selection_vector := SetNumElements (selection_vector st) (- 1)\<rparr>"
    let ?st2 = "FilterRowsByVisibility rt tid_start tid_end ?st1"
    let ?st' = "?st2\<lparr>calls := calls ?st2 @
              [Call_Consume \<lparr>batch_tid_start = tid_start, batch_tid_end = tid_end,
                 batch_selection_vector = selection_vector ?st2, batch_filtered = True\<rparr>]\<rparr>"
    have p: "ProcessTuples rt plan tid_start tid_end st = Inr ?st'"
      using none by (simp add: ProcessTuples_def Let_def)
    have s: "sel_list (selection_vector ?st2) = filter (visible rt) ?rows"
      unfolding FilterRowsByVisibility_sel_list
      by (simp add: candidates_def SetNumElements_def)
    have stage: "sorted_wrt (<) (filter (visible rt) ?rows) \<and>
        subseq (filter (visible rt) ?rows) ?rows \<and>
        subseq (filter (visible rt) ?rows) ?rows \<and>
        length (filter (visible rt) ?rows) \<le> length ?rows"
      by (rule filter_stage [OF sorted]) simp
    show "\<exists>st'. ProcessTuples rt plan tid_start tid_end st = Inr st' \<and>
              sorted_wrt (<) (sel_list (selection_vector st')) \<and>
              subseq (sel_list (selection_vector st')) ?rows \<and>
              length (sel_list (selection_vector st')) \<le> unat (tid_end - tid_start)"
      by (rule exI [of _ ?st']) (use p stage len in \<open>simp add: s\<close>)
  }
  {
    assume pre: "GetPredicate plan \<noteq> None \<and>
        asserts_hold (GetSIMDPredicates plan) (residual_predicate plan)"
    then have pred: "GetPredicate plan \<noteq> None"
      and ok: "asserts_hold (GetSIMDPredicates plan) (residual_predicate plan)"
      by simp_all
    let ?ps = "GetSIMDPredicates plan"
    let ?v1 = "simd_pass rt ?ps tid_start tid_end (selection_vector st)"
    let ?v = "case residual_predicate plan of None \<Rightarrow> ?v1
              | Some p \<Rightarrow> non_simd_pass p tid_start tid_end ?v1"
    let ?st1 = "st\<lparr>selection_vector := ?v, calls := calls st @ [Call_GetClockStart, Call_GetClockPause]\<rparr>"
    let ?st2 = "FilterRowsByVisibility rt tid_start tid_end ?st1"
    let ?st' = "?st2\<lparr>calls := calls ?st2 @
              [Call_Consume \<lparr>batch_tid_start = tid_start, batch_tid_end = tid_end,
                 batch_selection_vector = selection_vector ?st2, batch_filtered = True\<rparr>]\<rparr>"
    have f: "FilterRowsByPredicate rt plan tid_start tid_end st = Inr ?st1"
      by (rule FilterRowsByPredicate_Inr [OF pred ok])
    have p: "ProcessTuples rt plan tid_start tid_end st = Inr ?st'"
      using pred by (simp add: ProcessTuples_def Let_def f)
    have s1: "sel_list ?v1 = filter (simd_valid rt ?ps tid_start tid_end) ?rows"
      by (rule simd_pass_sel_list [OF asserts_hold_comparisons [OF ok]])
    have stage1: "sorted_wrt (<) (sel_list ?v1) \<and> subseq (sel_list ?v1) ?rows \<and>
        subseq (sel_list ?v1) ?rows \<and> length (sel_list ?v1) \<le> length ?rows"
      unfolding s1 by (rule filter_stage [OF sorted]) simp
    have "\<exists>Q. sel_list (selection_vector ?st1) = filter Q (sel_list ?v1)"
    proof (cases "residual_predicate plan")
      case None
      then have "sel_list (selection_vector ?st1) = filter (\<lambda>tid. True) (sel_list ?v1)"
        by simp
      then show ?thesis by (rule exI [of _ "\<lambda>tid. True"])
    next
      case (Some q)
      then have "sel_list (selection_vector ?st1) =
          filter (\<lambda>tid. Reify (DeriveValue q tid)) (sel_list ?v1)"
        by (simp add: non_simd_pass_sel_list)
      then show ?thesis by (rule exI [of _ "\<lambda>tid. Reify (DeriveValue q tid)"])
    qed
    then obtain Q where s2: "sel_list (selection_vector ?st1) = filter Q (sel_list ?v1)"
      by (rule exE)
    have stage2: "sorted_wrt (<) (sel_list (selection_vector ?st1)) \<and>
        subseq (sel_list (selection_vector ?st1)) (sel_list ?v1) \<and>
        subseq (sel_list (selection_vector ?st1)) ?rows \<and>
        length (sel_list (selection_vector ?st1)) \<le> length (sel_list ?v1)"
      unfolding s2 using stage1 by (intro filter_stage) simp_all
    have s3: "sel_list (selection_vector ?st2) =
        filter (visible rt) (sel_list (selection_vector ?st1))"
      by (rule visibility_after_predicate [OF f])
    have stage3: "sorted_wrt (<) (sel_list (selection_vector ?st2)) \<and>
        subseq (sel_list (selection_vector ?st2)) (sel_list (selection_vector ?st1)) \<and>
        subseq (sel_list (selection_vector ?st2)) ?rows \<and>
        length (sel_list (selection_vector ?st2)) \<le> length (sel_list (selection_vector ?st1))"
      unfolding s3 using stage2 by (intro filter_stage) simp_all
    show "\<exists>s1 st1 st'.
              s1 = sel_list ?v1 \<and>
              FilterRowsByPredicate rt plan tid_start tid_end st = Inr st1 \<and>
              ProcessTuples rt plan tid_start tid_end st = Inr st' \<and>
              sorted_wrt (<) s1 \<and>
              subseq s1 ?rows \<and>
              length s1 \<le> unat (tid_end - tid_start) \<and>
              sorted_wrt (<) (sel_list (selection_vector st1)) \<and>
              subseq (sel_list (selection_vector st1)) s1 \<and>
              subseq (sel_list (selection_vector st1)) ?rows \<and>
              length (sel_list (selection_vector st1)) \<le> length s1 \<and>
              sorted_wrt (<) (sel_list (selection_vector st')) \<and>
              subseq (sel_list (selection_vector st')) (sel_list (selection_vector st1)) \<and>
              subseq (sel_list (selection_vector st')) ?rows \<and>
              length (sel_list (selection_vector st')) \<le> length (sel_list (selection_vector st1))"
      by (rule exI [of _ "sel_list ?v1"], rule exI [of _ ?st1], rule exI [of _ ?st'])
        (use f p stage1 stage2 stage3 len in simp)
  }
qed

theorem filter_stages_ascending_and_narrowing_witness:
  "(0 :: u32) \<le> 40 \<and> (0 :: u32) \<le> 16 \<and>
   GetPredicate scan_all_plan = None \<and>
   GetPredicate simd_plan \<noteq> None \<and>
   asserts_hold (GetSIMDPredicates simd_plan) (residual_predicate simd_plan) \<and>
   (\<exists>st'. ProcessTuples example_rt scan_all_plan 0 16 example_state = Inr st' \<and>
      sorted_wrt (<) (sel_list (selection_vector st')) \<and>
      subseq (sel_list (selection_vector st')) (row_range 0 (unat (16 - 0 :: u32))) \<and>
      length (sel_list (selection_vector st')) \<le> 16) \<and>
   (\<exists>st1 st'.
      FilterRowsByPredicate example_rt simd_plan 0 40 example_state = Inr st1 \<and>
      ProcessTuples example_rt simd_plan 0 40 example_state = Inr st' \<and>
      sel_list (simd_pass example_rt (GetSIMDPredicates simd_plan) 0 40 (selection_vector example_state)) =
        [0, 1, 2, 3, 4, 5, 6, 7, 32, 33] \<and>
      sel_list (selection_vector st1) = [0, 1, 2, 3, 5, 6, 7, 33] \<and>
      sel_list (selection_vector st') = [0, 1, 2, 5, 6, 33] \<and>
      sorted_wrt (<) (sel_list (selection_vector st')) \<and>
      subseq (sel_list (selection_vector st')) (sel_list (selection_vector st1)) \<and>
      subseq (sel_list (selection_vector st')) (row_range 0 (unat (40 - 0 :: u32))))"
proof -
  have le40: "(0 :: u32) \<le> 40" and le16: "(0 :: u32) \<le> 16"
    by simp_all
  have none: "GetPredicate scan_all_plan = None"
    by (simp add: scan_all_plan_def)
  note pred = simd_plan_fields(1)
  note ok = simd_plan_asserts
  note t16 = filter_stages_ascending_and_narrowing [OF le16, of scan_all_plan example_rt example_state]
  note t40 = filter_stages_ascending_and_narrowing [OF le40, of simd_plan example_rt example_state]
  from t16 [THEN conjunct1, rule_format, OF none]
  have part1: "\<exists>st'. ProcessTuples example_rt scan_all_plan 0 16 example_state = Inr st' \<and>
      sorted_wrt (<) (sel_list (selection_vector st')) \<and>
      subseq (sel_list (selection_vector st')) (row_range 0 (unat (16 - 0 :: u32))) \<and>
      length (sel_list (selection_vector st')) \<le> 16"
    by simp
  from t40 [THEN conjunct2, rule_format, OF conjI [OF pred ok]]
  obtain s1 st1 st' where f: "FilterRowsByPredicate example_rt simd_plan 0 40 example_state = Inr st1"
    and p: "ProcessTuples example_rt simd_plan 0 40 example_state = Inr st'"
    and so: "sorted_wrt (<) (sel_list (selection_vector st'))"
    and su1: "subseq (sel_list (selection_vector st')) (sel_list (selection_vector st1))"
    and su: "subseq (sel_list (selection_vector st')) (row_range 0 (unat (40 - 0 :: u32)))"
    by blast
  have v1: "sel_list (simd_pass example_rt (GetSIMDPredicates simd_plan) 0 40
      (selection_vector example_state)) = [0, 1, 2, 3, 4, 5, 6, 7, 32, 33]"
    unfolding simd_plan_fields by (rule scenario_A)
  have v2: "sel_list (selection_vector st1) = [0, 1, 2, 3, 5, 6, 7, 33]"
    by (rule simd_plan_filtered [OF f])
  have v3: "sel_list (selection_vector st') = [0, 1, 2, 5, 6, 33]"
    unfolding ProcessTuples_selection [OF f p] v2 by (simp add: example_rt_def)
  have part2: "\<exists>st1 st'.
      FilterRowsByPredicate example_rt simd_plan 0 40 example_state = Inr st1 \<and>
      ProcessTuples example_rt simd_plan 0 40 example_state = Inr st' \<and>
      sel_list (simd_pass example_rt (GetSIMDPredicates simd_plan) 0 40 (selection_vector example_state)) =
        [0, 1, 2, 3, 4, 5, 6, 7, 32, 33] \<and>
      sel_list (selection_vector st1) = [0, 1, 2, 3, 5, 6, 7, 33] \<and>
      sel_list (selection_vector st') = [0, 1, 2, 5, 6, 33] \<and>
      sorted_wrt (<) (sel_list (selection_vector st')) \<and>
      subseq (sel_list (selection_vector st')) (sel_list (selection_vector st1)) \<and>
      subseq (sel_list (selection_vector st')) (row_range 0 (unat (40 - 0 :: u32)))"
    by (rule exI [of _ st1], rule exI [of _ st'], intro conjI) (rule f p v1 v2 v3 so su1 su)+
  from le40 le16 none pred ok part1 part2 show ?thesis
    by (intro conjI)
qed

text \<open>
  C7. With a predicate in the plan, \<open>FilterRowsByPredicate\<close> produces a filtered
  selection vector exactly when every value that it reifies has the SQL type Boolean:
  for each SIMD predicate the comparison value of the lane loop (line 589) and the
  value derived in the post-batch loop (line 635), and the value of the non-SIMD
  predicate (line 678). When one of them has another type, the result is the
  assertion failure and there is no selection vector.
\<close>

theorem non_boolean_predicate_fails_assertion:
  assumes pred: "GetPredicate plan \<noteq> None"
  shows "((\<exists>st'. FilterRowsByPredicate rt plan a b st = Inr st') =
            ((\<forall>p \<in> set (GetSIMDPredicates plan).
                comp_type (switch_compare (GetExpressionType p) val_lhs val_rhs) = Boolean \<and>
                DeriveValue_cmp_type p = Boolean) \<and>
             (\<forall>p. residual_predicate plan = Some p \<longrightarrow> GetValueType p = Boolean))) \<and>
         ((FilterRowsByPredicate rt plan a b st = Inl AssertionFailure) =
            (\<not> ((\<forall>p \<in> set (GetSIMDPredicates plan).
                   comp_type (switch_compare (GetExpressionType p) val_lhs val_rhs) = Boolean \<and>
                   DeriveValue_cmp_type p = Boolean) \<and>
                (\<forall>p. residual_predicate plan = Some p \<longrightarrow> GetValueType p = Boolean))))"
proof (cases "asserts_hold (GetSIMDPredicates plan) (residual_predicate plan)")
  case True
  have "\<exists>st'. FilterRowsByPredicate rt plan a b st = Inr st'"
    unfolding FilterRowsByPredicate_Inr [OF pred True] by (rule exI) (rule refl)
  moreover have "FilterRowsByPredicate rt plan a b st \<noteq> Inl AssertionFailure"
    unfolding FilterRowsByPredicate_Inr [OF pred True] by simp
  ultimately show ?thesis
    using True unfolding asserts_hold_iff [of _ _ val_lhs val_rhs] by simp
next
  case False
  have bad: "FilterRowsByPredicate rt plan a b st = Inl AssertionFailure"
    by (rule FilterRowsByPredicate_Inl [OF pred False])
  then have "\<not> (\<exists>st'. FilterRowsByPredicate rt plan a b st = Inr st')"
    by simp
  then show ?thesis
    using False bad unfolding asserts_hold_iff [of _ _ val_lhs val_rhs] by simp
qed

theorem non_boolean_predicate_fails_assertion_witness:
  "GetPredicate other_plan \<noteq> None \<and>
   FilterRowsByPredicate example_rt other_plan 0 40 example_state = Inl AssertionFailure \<and>
   GetPredicate integer_plan \<noteq> None \<and>
   FilterRowsByPredicate example_rt integer_plan 0 40 example_state = Inl AssertionFailure \<and>
   GetPredicate simd_plan \<noteq> None \<and>
   (\<exists>st'. FilterRowsByPredicate example_rt simd_plan 0 40 example_state = Inr st')"
proof -
  have p1: "GetPredicate other_plan \<noteq> None"
    by (simp add: other_plan_def simd_plan_def)
  have p2: "GetPredicate integer_plan \<noteq> None"
    by (simp add: integer_plan_def simd_plan_def)
  note p3 = simd_plan_fields(1)
  have b1: "\<not> ((\<forall>p \<in> set (GetSIMDPredicates other_plan).
         comp_type (switch_compare (GetExpressionType p) \<lparr>lane_val = [], lane_null = None\<rparr>
           \<lparr>lane_val = [], lane_null = None\<rparr>) = Boolean \<and>
         DeriveValue_cmp_type p = Boolean) \<and>
      (\<forall>p. residual_predicate other_plan = Some p \<longrightarrow> GetValueType p = Boolean))"
    by (simp add: other_plan_def other_expression_def switch_compare_def default_CompVal_def)
  have b2: "\<not> ((\<forall>p \<in> set (GetSIMDPredicates integer_plan).
         comp_type (switch_compare (GetExpressionType p) \<lparr>lane_val = [], lane_null = None\<rparr>
           \<lparr>lane_val = [], lane_null = None\<rparr>) = Boolean \<and>
         DeriveValue_cmp_type p = Boolean) \<and>
      (\<forall>p. residual_predicate integer_plan = Some p \<longrightarrow> GetValueType p = Boolean))"
    by (simp add: integer_plan_def simd_plan_def residual_predicate_def)
  have g3: "(\<forall>p \<in> set (GetSIMDPredicates simd_plan).
         comp_type (switch_compare (GetExpressionType p) \<lparr>lane_val = [], lane_null = None\<rparr>
           \<lparr>lane_val = [], lane_null = None\<rparr>) = Boolean \<and>
         DeriveValue_cmp_type p = Boolean) \<and>
      (\<forall>p. residual_predicate simd_plan = Some p \<longrightarrow> GetValueType p = Boolean)"
    unfolding simd_plan_fields
    by (simp add: greater_than_5_def switch_compare_def Compare_def DeriveValue_cmp_type_def
        residual_example_def)
  have r1: "FilterRowsByPredicate example_rt other_plan 0 40 example_state = Inl AssertionFailure"
    by (rule non_boolean_predicate_fails_assertion [OF p1, THEN conjunct2, THEN iffD2, OF b1])
  have r2: "FilterRowsByPredicate example_rt integer_plan 0 40 example_state = Inl AssertionFailure"
    by (rule non_boolean_predicate_fails_assertion [OF p2, THEN conjunct2, THEN iffD2, OF b2])
  have r3: "\<exists>st'. FilterRowsByPredicate example_rt simd_plan 0 40 example_state = Inr st'"
    by (rule non_boolean_predicate_fails_assertion [OF p3, THEN conjunct1, THEN iffD2, OF g3])
  from p1 r1 p2 r2 p3 r3 show ?thesis
    by (intro conjI)
qed

text \<open>
  C8 as the specification states it fails: the number in the name is
  \<open>Vector::kDefaultVectorSize\<close>, not the lane width. With a default vector size of
  1024 the name of a scan with a SIMD-able predicate is \<open>Scan('t', 1024)\<close>, which does
  not contain the lane width 32; and the name of a scan without a predicate over a
  table named \<open>t32\<close> contains 32.
\<close>

theorem GetName_lane_width_counterexample:
  "GetPredicate simd_plan \<noteq> None \<and> IsSIMDable (the (GetPredicate simd_plan)) \<and>
   GetName 1024 simd_plan = ''Scan('' @ [CHR 0x27] @ ''t'' @ [CHR 0x27] @ '', 1024)'' \<and>
   to_string N = ''32'' \<and>
   \<not> contains (GetName 1024 simd_plan) (to_string N) \<and>
   GetPredicate t32_plan = None \<and>
   contains (GetName 1024 t32_plan) (to_string N)"
  unfolding GetName_simd_plan_1024 GetName_t32_plan to_string_32
  by (simp add: simd_plan_def t32_plan_def scan_all_plan_def)

text \<open>
  C8, amended. \<open>GetName\<close> returns \<open>Scan('\<close>, the table's name and a quote, then,
  exactly when the plan has a predicate that is SIMD-able, a comma, a space and the
  decimal digits of \<open>Vector::kDefaultVectorSize\<close>, then a closing parenthesis. So the
  name contains the table's name, and with a SIMD-able predicate it contains the
  default vector size, which is the capacity of the selection vector (line 93).
\<close>

theorem GetName_appends_default_vector_size:
  "GetName kDefaultVectorSize plan =
     ''Scan('' @ [CHR 0x27] @ GetTableName plan @ [CHR 0x27] @
     (if GetPredicate plan \<noteq> None \<and> IsSIMDable (the (GetPredicate plan))
      then '', '' @ to_string (unat kDefaultVectorSize) else []) @ '')'' \<and>
   contains (GetName kDefaultVectorSize plan) (GetTableName plan) \<and>
   (if GetPredicate plan \<noteq> None \<and> IsSIMDable (the (GetPredicate plan))
    then contains (GetName kDefaultVectorSize plan) (to_string (unat kDefaultVectorSize))
    else GetName kDefaultVectorSize plan = ''Scan('' @ [CHR 0x27] @ GetTableName plan @ [CHR 0x27] @ '')'')"
proof -
  let ?suffix = "if GetPredicate plan \<noteq> None \<and> IsSIMDable (the (GetPredicate plan))
      then '', '' @ to_string (unat kDefaultVectorSize) else []"
  have eq: "GetName kDefaultVectorSize plan =
      ''Scan('' @ [CHR 0x27] @ GetTableName plan @ [CHR 0x27] @ ?suffix @ '')''"
    by (simp add: GetName_def Let_def)
  have name: "contains (GetName kDefaultVectorSize plan) (GetTableName plan)"
    unfolding eq
    using contains_middle [of "''Scan('' @ [CHR 0x27]" "GetTableName plan" "[CHR 0x27] @ ?suffix @ '')''"]
    by simp
  have size: "GetPredicate plan \<noteq> None \<and> IsSIMDable (the (GetPredicate plan)) \<Longrightarrow>
      contains (GetName kDefaultVectorSize plan) (to_string (unat kDefaultVectorSize))"
  proof -
    assume c: "GetPredicate plan \<noteq> None \<and> IsSIMDable (the (GetPredicate plan))"
    have "GetName kDefaultVectorSize plan =
        (''Scan('' @ [CHR 0x27] @ GetTableName plan @ [CHR 0x27] @ '', '') @
        to_string (unat kDefaultVectorSize) @ '')''"
      unfolding eq using c by simp
    then show ?thesis
      using contains_middle [of "''Scan('' @ [CHR 0x27] @ GetTableName plan @ [CHR 0x27] @ '', ''"
          "to_string (unat kDefaultVectorSize)" "'')''"]
      by (simp only:)
  qed
  have plain: "\<not> (GetPredicate plan \<noteq> None \<and> IsSIMDable (the (GetPredicate plan))) \<Longrightarrow>
      GetName kDefaultVectorSize plan = ''Scan('' @ [CHR 0x27] @ GetTableName plan @ [CHR 0x27] @ '')''"
    unfolding eq by simp
  show ?thesis
    using eq name size plain
    by (cases "GetPredicate plan \<noteq> None \<and> IsSIMDable (the (GetPredicate plan))") simp_all
qed

theorem GetName_appends_default_vector_size_witness:
  "GetName 1024 simd_plan = ''Scan('' @ [CHR 0x27] @ ''t'' @ [CHR 0x27] @ '', 1024)'' \<and>
   GetName 1024 scan_all_plan = ''Scan('' @ [CHR 0x27] @ ''t'' @ [CHR 0x27] @ '')'' \<and>
   contains (GetName 1024 simd_plan) ''t'' \<and>
   contains (GetName 1024 simd_plan) ''1024'' \<and>
   contains (GetName 32 simd_plan) (to_string N)"
proof -
  have c: "GetPredicate simd_plan \<noteq> None \<and> IsSIMDable (the (GetPredicate simd_plan))"
    and n: "GetTableName simd_plan = ''t''"
    by (simp_all add: simd_plan_def)
  have c': "\<not> (GetPredicate scan_all_plan \<noteq> None \<and> IsSIMDable (the (GetPredicate scan_all_plan)))"
    and n': "GetTableName scan_all_plan = ''t''"
    by (simp_all add: scan_all_plan_def)
  have u32: "to_string (unat (32 :: u32)) = to_string N"
    by (simp add: N_def)
  note a = GetName_appends_default_vector_size [of 1024 simd_plan]
  note b = GetName_appends_default_vector_size [of 1024 scan_all_plan]
  note d = GetName_appends_default_vector_size [of 32 simd_plan]
  have 1: "GetName 1024 simd_plan = ''Scan('' @ [CHR 0x27] @ ''t'' @ [CHR 0x27] @ '', 1024)''"
    using a [THEN conjunct1] c n unfolding to_string_1024 by simp
  have 2: "GetName 1024 scan_all_plan = ''Scan('' @ [CHR 0x27] @ ''t'' @ [CHR 0x27] @ '')''"
    using b [THEN conjunct1] c' n' by simp
  have 3: "contains (GetName 1024 simd_plan) ''t''"
    using a [THEN conjunct2, THEN conjunct1] n by simp
  have 4: "contains (GetName 1024 simd_plan) ''1024''"
    using a [THEN conjunct2, THEN conjunct2] c unfolding to_string_1024 by simp
  have 5: "contains (GetName 32 simd_plan) (to_string N)"
    using d [THEN conjunct2, THEN conjunct2] c u32 by simp
  from 1 2 3 4 5 show ?thesis
    by (intro conjI)
qed

text \<open>
  C2. The lane loop and the scalar evaluation differ on a SIMD predicate with a
  constant operand that is the SQL NULL. For \<open>a > NULL\<close> over the aligned range of the
  N rows 0 to 31, the lane loop splats the raw value of the constant and gives it no
  null bits (lines 502 to 507, 531 to 536, 560 and 561), so it keeps all N rows;
  evaluated row by row the comparison is NULL in every row, and no row survives.
\<close>

theorem lane_loop_keeps_rows_scalar_evaluation_excludes:
  "align_size_of 0 32 = of_nat N \<and>
   list_all is_comparison [greater_than_null] \<and>
   sel_list (simd_pass example_rt [greater_than_null] 0 32 example_vector) =
     [0,1,2,3,4,5,6,7,8,9,10,11,12,13,14,15,16,17,18,19,20,21,22,23,24,25,26,27,28,29,30,31] \<and>
   scalar_reference example_rt [greater_than_null] 0 N = []"
proof -
  have 1: "align_size_of 0 32 = of_nat N"
    by (simp add: align_size_0_32 N_def)
  have 3: "sel_list (simd_pass example_rt [greater_than_null] 0 32 example_vector) =
     [0,1,2,3,4,5,6,7,8,9,10,11,12,13,14,15,16,17,18,19,20,21,22,23,24,25,26,27,28,29,30,31]"
    unfolding simd_pass_sel_list [OF greater_than_null_is_comparison] row_range_0_32
    by (simp add: simd_valid_greater_than_null_32)
  have 4: "scalar_reference example_rt [greater_than_null] 0 N = []"
    unfolding scalar_reference_def row_range_0_N
    by (simp add: scalar_greater_than_null)
  from 1 greater_than_null_is_comparison 3 4 show ?thesis
    by (intro conjI)
qed

text \<open>
  C4. The same defect, seen from the rows: over the rows 0 to 39 the right operand of
  \<open>a > NULL\<close> is null and the comparison derives to NULL, yet the lane mask of the
  first vector is all ones and the predicate filter leaves the rows 0 to 31 in the
  selection vector. Only the rows 32 to 39, which the post-batch loop evaluates with
  \<open>DeriveValue\<close>, are excluded.
\<close>

theorem null_constant_operand_passes_lane_loop:
  "operand_is_null example_rt (GetChild1 greater_than_null) 0 \<and>
   DeriveValue_cmp example_rt greater_than_null 0 = None \<and>
   simd_mask example_rt [greater_than_null] 0 = replicate N True \<and>
   (\<exists>st'. FilterRowsByPredicate example_rt null_constant_plan 0 40 example_state = Inr st' \<and>
      sel_list (selection_vector st') =
        [0,1,2,3,4,5,6,7,8,9,10,11,12,13,14,15,16,17,18,19,20,21,22,23,24,25,26,27,28,29,30,31])"
proof -
  have 1: "operand_is_null example_rt (GetChild1 greater_than_null) 0"
    by (simp add: operand_is_null_def greater_than_null_def)
  have 2: "DeriveValue_cmp example_rt greater_than_null 0 = None"
    by (simp add: DeriveValue_cmp_def operand_is_null_def greater_than_null_def)
  have pred: "GetPredicate null_constant_plan \<noteq> None"
    and ps: "GetSIMDPredicates null_constant_plan = [greater_than_null]"
    and res: "residual_predicate null_constant_plan = None"
    by (simp_all add: null_constant_plan_def residual_predicate_def)
  have ok: "asserts_hold (GetSIMDPredicates null_constant_plan) (residual_predicate null_constant_plan)"
    unfolding ps res
    by (simp add: asserts_hold_def comp_val_type_Boolean DeriveValue_cmp_type_def greater_than_null_def)
  let ?st' = "example_state\<lparr>selection_vector :=
       simd_pass example_rt [greater_than_null] 0 40 (selection_vector example_state),
     calls := calls example_state @ [Call_GetClockStart, Call_GetClockPause]\<rparr>"
  have run: "FilterRowsByPredicate example_rt null_constant_plan 0 40 example_state = Inr ?st'"
    unfolding FilterRowsByPredicate_Inr [OF pred ok] ps res by simp
  have sel: "sel_list (selection_vector ?st') =
      [0,1,2,3,4,5,6,7,8,9,10,11,12,13,14,15,16,17,18,19,20,21,22,23,24,25,26,27,28,29,30,31]"
    using simd_pass_sel_list [OF greater_than_null_is_comparison, of example_rt 0 40
        "selection_vector example_state"]
    unfolding row_range_0_40
    by (simp add: simd_valid_greater_than_null_40)
  have 4: "\<exists>st'. FilterRowsByPredicate example_rt null_constant_plan 0 40 example_state = Inr st' \<and>
      sel_list (selection_vector st') =
        [0,1,2,3,4,5,6,7,8,9,10,11,12,13,14,15,16,17,18,19,20,21,22,23,24,25,26,27,28,29,30,31]"
    by (rule exI [of _ ?st']) (intro conjI, rule run, rule sel)
  from 1 2 simd_mask_greater_than_null 4 show ?thesis
    by (intro conjI)
qed

section \<open>What holds of the lane loop without NULL constants\<close>

text \<open>
  For SIMD predicates that are comparisons and have no constant operand that is
  the SQL NULL, the first part of the predicate filter (lane loop and post-batch loop)
  leaves in the selection vector exactly the rows of the range that the row-by-row
  scalar evaluation keeps, in the same order, whatever the range.
\<close>

theorem lane_loop_agrees_with_scalar_evaluation:
  assumes ps: "list_all is_comparison ps"
    and nn: "list_all (\<lambda>p. \<not> is_null_constant (GetChild0 p) \<and> \<not> is_null_constant (GetChild1 p)) ps"
  shows "sel_list (simd_pass rt ps a b v) = scalar_reference rt ps a (unat (b - a))"
  unfolding simd_pass_sel_list [OF ps] scalar_reference_def
  by (rule filter_cong [OF refl]) (simp add: simd_valid_scalar [OF nn])

theorem lane_loop_agrees_with_scalar_evaluation_witness:
  "list_all is_comparison [greater_than_5] \<and>
   list_all (\<lambda>p. \<not> is_null_constant (GetChild0 p) \<and> \<not> is_null_constant (GetChild1 p)) [greater_than_5] \<and>
   sel_list (simd_pass example_rt [greater_than_5] 0 40 example_vector) = [0, 1, 2, 3, 4, 5, 6, 7, 32, 33] \<and>
   scalar_reference example_rt [greater_than_5] 0 40 = [0, 1, 2, 3, 4, 5, 6, 7, 32, 33]"
proof -
  have nn: "list_all (\<lambda>p. \<not> is_null_constant (GetChild0 p) \<and> \<not> is_null_constant (GetChild1 p)) [greater_than_5]"
    by (simp add: is_null_constant_def greater_than_5_def)
  have u: "unat (40 - 0 :: u32) = 40"
    by simp
  note r = lane_loop_agrees_with_scalar_evaluation [OF greater_than_5_is_comparison nn,
      of example_rt 0 40 example_vector]
  have s: "scalar_reference example_rt [greater_than_5] 0 40 = [0, 1, 2, 3, 4, 5, 6, 7, 32, 33]"
    using r unfolding u scenario_A by (rule sym)
  from greater_than_5_is_comparison nn scenario_A [of example_vector] s show ?thesis
    by (intro conjI)
qed

text \<open>
  A row in which an operand of a SIMD predicate is null is not in the selection
  vector after the first part of the predicate filter, whatever the comparison and
  the other operand, as long as the operands of that predicate are columns or
  constants that are not the SQL NULL.
\<close>

theorem null_column_operand_excludes_row:
  assumes ps: "list_all is_comparison ps"
    and p: "p \<in> set ps"
    and nn: "\<not> is_null_constant (GetChild0 p)" "\<not> is_null_constant (GetChild1 p)"
    and null: "operand_is_null rt (GetChild0 p) tid \<or> operand_is_null rt (GetChild1 p) tid"
  shows "tid \<notin> set (sel_list (simd_pass rt ps a b v))"
proof
  assume "tid \<in> set (sel_list (simd_pass rt ps a b v))"
  then have "simd_valid rt ps a b tid"
    unfolding simd_pass_sel_list [OF ps] by simp
  then have "lane_row_valid rt p tid \<or> scalar_row_valid rt p tid"
    using p by (auto simp: simd_valid_def list_all_iff split: if_splits)
  then have "scalar_row_valid rt p tid"
    by (simp add: lane_row_valid_scalar [OF nn])
  with null_operand_not_valid [OF null] show False
    by simp
qed

theorem null_column_operand_excludes_row_witness:
  "list_all is_comparison [less_than_5] \<and>
   less_than_5 \<in> set [less_than_5] \<and>
   \<not> is_null_constant (GetChild0 less_than_5) \<and>
   \<not> is_null_constant (GetChild1 less_than_5) \<and>
   operand_is_null null_row_rt (GetChild0 less_than_5) 2 \<and>
   operand_is_null null_row_rt (GetChild0 less_than_5) 35 \<and>
   operand_value null_row_rt (GetChild0 less_than_5) 2 < operand_value null_row_rt (GetChild1 less_than_5) 2 \<and>
   2 \<notin> set (sel_list (simd_pass null_row_rt [less_than_5] 0 40 example_vector)) \<and>
   35 \<notin> set (sel_list (simd_pass null_row_rt [less_than_5] 0 40 example_vector)) \<and>
   1 \<in> set (sel_list (simd_pass null_row_rt [less_than_5] 0 40 example_vector))"
proof -
  have m: "less_than_5 \<in> set [less_than_5]"
    by simp
  have n0: "\<not> is_null_constant (GetChild0 less_than_5)"
    and n1: "\<not> is_null_constant (GetChild1 less_than_5)"
    by (simp_all add: is_null_constant_def less_than_5_def)
  have o2: "operand_is_null null_row_rt (GetChild0 less_than_5) 2"
    and o35: "operand_is_null null_row_rt (GetChild0 less_than_5) 35"
    by (simp_all add: operand_is_null_def less_than_5_def col_a_def null_row_rt_def example_rt_def)
  have lt: "operand_value null_row_rt (GetChild0 less_than_5) 2 < operand_value null_row_rt (GetChild1 less_than_5) 2"
    by (simp add: operand_value_def less_than_5_def col_a_def null_row_rt_def example_rt_def)
  have r2: "2 \<notin> set (sel_list (simd_pass null_row_rt [less_than_5] 0 40 example_vector))"
    by (rule null_column_operand_excludes_row [OF less_than_5_is_comparison m n0 n1 disjI1 [OF o2]])
  have r35: "35 \<notin> set (sel_list (simd_pass null_row_rt [less_than_5] 0 40 example_vector))"
    by (rule null_column_operand_excludes_row [OF less_than_5_is_comparison m n0 n1 disjI1 [OF o35]])
  have v: "simd_valid null_row_rt [less_than_5] 0 40 1"
    by (simp add: simd_valid_def align_size_0_40 lane_row_valid_def less_than_5_def
        operand_value_def lane_is_null_def col_a_def null_row_rt_def example_rt_def)
  have r1: "1 \<in> set (sel_list (simd_pass null_row_rt [less_than_5] 0 40 example_vector))"
    unfolding simd_pass_sel_list [OF less_than_5_is_comparison] row_range_0_40
    using v by simp
  from less_than_5_is_comparison m n0 n1 o2 o35 lt r2 r35 r1 show ?thesis
    by (intro conjI)
qed

end
